theory Spec2Isabelle
  imports Complex_Main "HOL-Library.Log_Nat"
begin

section \<open>Branch and bound for binary quadratic problems\<close>

text \<open>
  The development embeds the node-processing loop \<^verbatim>\<open>solveBB\<close> of the notebook
  \<^verbatim>\<open>Fusion/BinaryQuadratic-SDP/binquad.ipynb\<close>: a best-first branch and bound for
  minimising \<open>x\<^sup>T Q x + P\<^sup>T x + R\<close> over \<open>x \<in> {0,1}\<^sup>n\<close>.

  Numbers are real numbers: the notebook computes in floating point, the development
  in exact arithmetic, except where rounding decides the control flow of the loop: the
  difference \<^verbatim>\<open>self.ub - self.gaptol\<close> of the termination test is rounded as the machine
  rounds it. A one-dimensional array is a list, a two-dimensional array the list of its
  rows (all of one length).
\<close>

subsection \<open>Arrays and exceptions\<close>

type_synonym vec = "real list"
type_synonym mat = "real list list"

text \<open>
  The exceptions the loop can raise: an index out of range, operands whose shapes do
  not match, an operand of the wrong kind, and whatever failure the relaxation solver
  reports.
\<close>

datatype error = IndexError | ValueError | TypeError | SolverError

definition bindE :: "error + 'a \<Rightarrow> ('a \<Rightarrow> error + 'b) \<Rightarrow> error + 'b" where
  "bindE m f = (case m of Inl e \<Rightarrow> Inl e | Inr x \<Rightarrow> f x)"

definition delete_at :: "nat \<Rightarrow> 'a list \<Rightarrow> 'a list" where
  "delete_at i xs = take i xs @ drop (Suc i) xs"

text \<open>\<^verbatim>\<open>a[i]\<close>: indices are natural numbers; an index past the end raises.\<close>

definition np_index :: "'a list \<Rightarrow> nat \<Rightarrow> error + 'a" where
  "np_index xs i = (if i < length xs then Inr (xs ! i) else Inl IndexError)"

text \<open>
  \<^verbatim>\<open>np.delete(a, i)\<close> and \<^verbatim>\<open>np.delete(M, i, axis=0)\<close>: a new array without position
  \<open>i\<close>. An index past the end raises, as in current numpy; versions before 1.19 warn and
  return a copy. The loop reads \<^verbatim>\<open>idxmap[pivot]\<close> first, which raises in every version.
\<close>

definition np_delete :: "'a list \<Rightarrow> nat \<Rightarrow> error + 'a list" where
  "np_delete xs i = (if i < length xs then Inr (delete_at i xs) else Inl IndexError)"

text \<open>
  \<^verbatim>\<open>np.delete(M, j, axis=1)\<close> and \<^verbatim>\<open>M[:,j]\<close>. A list of rows does not record the
  number of columns of a matrix without rows; both operations succeed on it.
\<close>

definition np_delete_axis1 :: "mat \<Rightarrow> nat \<Rightarrow> error + mat" where
  "np_delete_axis1 M j =
     (if list_all (\<lambda>row. j < length row) M then Inr (map (delete_at j) M) else Inl IndexError)"

definition np_column :: "mat \<Rightarrow> nat \<Rightarrow> error + vec" where
  "np_column M j =
     (if list_all (\<lambda>row. j < length row) M then Inr (map (\<lambda>row. row ! j) M) else Inl IndexError)"

definition np_index2 :: "mat \<Rightarrow> nat \<Rightarrow> nat \<Rightarrow> error + real" where
  "np_index2 M i j =
     (if i < length M \<and> j < length (M ! i) then Inr (M ! i ! j) else Inl IndexError)"

text \<open>\<^verbatim>\<open>a[i] = v\<close> on an array.\<close>

definition np_setitem :: "'a list \<Rightarrow> nat \<Rightarrow> 'a \<Rightarrow> error + 'a list" where
  "np_setitem xs i v = (if i < length xs then Inr (xs[i := v]) else Inl IndexError)"

text \<open>
  \<^verbatim>\<open>a + b\<close> on one-dimensional arrays: entrywise on equal lengths, an array of
  length one is broadcast, any other pair of lengths raises.
\<close>

definition np_add :: "vec \<Rightarrow> vec \<Rightarrow> error + vec" where
  "np_add a b =
     (if length a = length b then Inr (map2 (+) a b)
      else if length a = 1 then Inr (map (\<lambda>y. hd a + y) b)
      else if length b = 1 then Inr (map (\<lambda>x. x + hd b) a)
      else Inl ValueError)"

definition scale :: "real \<Rightarrow> vec \<Rightarrow> vec" where
  "scale c xs = map (\<lambda>x. c * x) xs"

subsection \<open>The reduced problem of a child node\<close>

text \<open>
  The six assignments that build \<^verbatim>\<open>Q0\<close>, \<^verbatim>\<open>P0\<close> and \<^verbatim>\<open>R0\<close> in the body of
  \<^verbatim>\<open>for val in [0, 1]\<close>:
  \<^verbatim>\<open>
    QT = np.delete(Q, pivot, axis=0)
    Q0 = np.delete(QT, pivot, axis=1)
    QZ = QT[:,pivot]
    PT = np.delete(P, pivot)
    P0 = PT + 2*val*QZ
    R0 = val*Q[pivot,pivot] + val*P[pivot] + R
  \<close>
\<close>

definition reduce :: "mat \<Rightarrow> vec \<Rightarrow> real \<Rightarrow> nat \<Rightarrow> real \<Rightarrow> error + (mat \<times> vec \<times> real)" where
  "reduce Q P R pivot val =
     bindE (np_delete Q pivot) (\<lambda>QT.
     bindE (np_delete_axis1 QT pivot) (\<lambda>Q0.
     bindE (np_column QT pivot) (\<lambda>QZ.
     bindE (np_delete P pivot) (\<lambda>PT.
     bindE (np_add PT (scale (2 * val) QZ)) (\<lambda>P0.
     bindE (np_index2 Q pivot pivot) (\<lambda>qpp.
     bindE (np_index P pivot) (\<lambda>pp.
     Inr (Q0, P0, val * qpp + val * pp + R))))))))"

text \<open>The objective \<open>x\<^sup>T Q x + P\<^sup>T x + R\<close> of the problem statement.\<close>

definition dot :: "vec \<Rightarrow> vec \<Rightarrow> real" where
  "dot xs ys = sum_list (map2 (*) xs ys)"

definition quad :: "mat \<Rightarrow> vec \<Rightarrow> real" where
  "quad Q x = dot x (map (\<lambda>row. dot row x) Q)"

definition objective :: "mat \<Rightarrow> vec \<Rightarrow> real \<Rightarrow> vec \<Rightarrow> real" where
  "objective Q P R x = quad Q x + dot P x + R"

definition insert_at :: "nat \<Rightarrow> 'a \<Rightarrow> 'a list \<Rightarrow> 'a list" where
  "insert_at i v xs = take i xs @ v # drop i xs"

definition square :: "nat \<Rightarrow> mat \<Rightarrow> bool" where
  "square n Q \<longleftrightarrow> length Q = n \<and> list_all (\<lambda>row. length row = n) Q"

definition symmetric :: "mat \<Rightarrow> bool" where
  "symmetric Q \<longleftrightarrow>
     list_all (\<lambda>i. list_all (\<lambda>j. Q ! i ! j = Q ! j ! i) [0..<length Q]) [0..<length Q]"

subsection \<open>Floating-point rounding\<close>

text \<open>
  The numbers of the notebook are IEEE 754 binary64 numbers, and \<^verbatim>\<open>a - b\<close> on them is
  the exact difference rounded to the nearest binary64 number, a tie going to the even
  significand. \<open>round64\<close> is this rounding as a function on the reals. For a positive \<open>x\<close>,
  \<open>expo x\<close> is the exponent \<open>e\<close> with \<open>2 powi e \<le> x < 2 powi (e + 1)\<close>; the binary64 numbers
  around \<open>x\<close> are the multiples of \<open>2 powi ulp_exp x\<close>, where \<open>ulp_exp x\<close> is 52 below
  the exponent (a significand of 53 bits) and \<open>-1074\<close> throughout the subnormal range;
  \<open>on_grid g x\<close> is the multiple of \<open>2 powi g\<close> nearest to \<open>x\<close>. A real number is a
  \<open>float64\<close> when rounding leaves it as it is.

  There is no infinity in the model: a real that the machine rounds to infinity is
  rounded on the grid of its own exponent, to a value of magnitude above every binary64
  number, so that its comparison with a binary64 number comes out as the comparison
  with the machine's infinity does.
\<close>

definition expo :: "real \<Rightarrow> int" where
  "expo x = (if 1 \<le> x then int (floorlog 2 (nat \<lfloor>x\<rfloor>)) - 1
             else - int (floorlog 2 (nat (\<lceil>1 / x\<rceil> - 1))))"

definition round_even :: "real \<Rightarrow> int" where
  "round_even x =
     (let f = \<lfloor>x\<rfloor>; r = x - of_int f
      in if r < 1 / 2 then f else if 1 / 2 < r then f + 1 else if even f then f else f + 1)"

definition ulp_exp :: "real \<Rightarrow> int" where
  "ulp_exp x = max (expo x) (- 1022) - 52"

definition on_grid :: "int \<Rightarrow> real \<Rightarrow> real" where
  "on_grid g x = 2 powi g * of_int (round_even (x / 2 powi g))"

definition round_pos :: "real \<Rightarrow> real" where
  "round_pos x = on_grid (ulp_exp x) x"

definition round64 :: "real \<Rightarrow> real" where
  "round64 x = (if x = 0 then 0 else if 0 < x then round_pos x else - round_pos (- x))"

definition float64 :: "real \<Rightarrow> bool" where
  "float64 x \<longleftrightarrow> round64 x = x"

subsection \<open>Nodes, the search state and the loop\<close>

text \<open>
  A node is the tuple \<^verbatim>\<open>(obj, self.relSolved, Q, P, R, curr, idxmap, pivot)\<close> that is
  pushed on the queue: the relaxed objective, the sequence number, the reduced data, the
  assignment over the original variables, the index map from reduced to original
  positions and the position, in reduced coordinates, of the branch variable. The pivot
  is an index, a natural number.
\<close>

record node =
  n_obj :: real
  n_seq :: nat
  n_Q :: mat
  n_P :: vec
  n_R :: real
  n_curr :: vec
  n_idxmap :: "nat list"
  n_pivot :: nat

text \<open>
  The attributes of \<^verbatim>\<open>self\<close>. The loop itself assigns \<^verbatim>\<open>self.active\<close> and \<^verbatim>\<open>self.lb\<close>
  and reads \<^verbatim>\<open>self.gaptol\<close>; the upper bound, the counter of solved relaxations and the
  incumbent are kept by \<^verbatim>\<open>solveRelaxation\<close> and form the part of the state it may change.
\<close>

record ostate =
  ub :: real
  relSolved :: nat
  incumbent :: vec

record bb =
  active :: "node list"
  lb :: real
  gaptol :: real
  ost :: ostate

text \<open>
  The call \<^verbatim>\<open>self.solveRelaxation(Q0, P0, R0, curr0, idxmap0)\<close>: it returns
  \<^verbatim>\<open>(obj0, pivot0)\<close> and a new state of its own, or raises. It does not write to the
  arrays it is given.
\<close>

type_synonym relaxation =
  "ostate \<Rightarrow> mat \<Rightarrow> vec \<Rightarrow> real \<Rightarrow> vec \<Rightarrow> nat list \<Rightarrow> error + ((real \<times> nat) \<times> ostate)"

text \<open>
  \<^verbatim>\<open>heapq\<close> is modelled by what it guarantees: \<^verbatim>\<open>heappop\<close> removes a least tuple.
  The queue is the list of its nodes in ascending order of \<open>(obj, relSolved)\<close>, the first
  two components of the tuple, which is the \<open>key\<close> of a node; \<^verbatim>\<open>heappush\<close> inserts,
  \<^verbatim>\<open>heappop\<close> takes the head. Only the emptiness of the list is observed by the loop.

  The model is that of \<^verbatim>\<open>heapq\<close> on queues whose keys are pairwise different, which
  is what the counter \<^verbatim>\<open>self.relSolved\<close> is in the tuple for. When a pushed tuple meets
  one with the same key, Python's comparison of tuples goes on to the third component
  and compares two arrays, which raises \<^verbatim>\<open>ValueError\<close> for arrays of more than one
  element; the list model keeps the order of insertion there and does not raise. A push
  is \<open>fresh\<close> when no queued node has the key of the pushed one.
\<close>

definition key :: "node \<Rightarrow> real \<times> nat" where
  "key nd = (n_obj nd, n_seq nd)"

definition fresh :: "node list \<Rightarrow> node \<Rightarrow> bool" where
  "fresh h x \<longleftrightarrow> key x \<notin> set (map key h)"

definition node_lt :: "node \<Rightarrow> node \<Rightarrow> bool" where
  "node_lt a b \<longleftrightarrow> n_obj a < n_obj b \<or> (n_obj a = n_obj b \<and> n_seq a < n_seq b)"

fun heappush :: "node list \<Rightarrow> node \<Rightarrow> node list" where
  "heappush [] x = [x]"
| "heappush (y # ys) x = (if node_lt x y then x # y # ys else y # heappush ys x)"

definition heappop :: "node list \<Rightarrow> error + (node \<times> node list)" where
  "heappop h = (case h of [] \<Rightarrow> Inl IndexError | x # xs \<Rightarrow> Inr (x, xs))"

text \<open>
  The termination test: \<^verbatim>\<open>self.lb >= self.ub - self.gaptol\<close> in \<^verbatim>\<open>solveBB\<close>, or its
  replacement for integral data, \<^verbatim>\<open>np.ceil(self.lb) >= self.ub\<close>. The difference is
  the rounded one. The left-hand side is read as the binary64 number it is in the
  notebook: on a \<open>float64\<close> lower bound the test is \<open>lb \<ge> round64 (ub - gaptol)\<close>.
  \<^verbatim>\<open>np.ceil\<close> and the comparisons are exact on binary64 numbers.
\<close>

datatype criterion = GapTolerance | IntegerCeiling

definition optimality_proved :: "criterion \<Rightarrow> bb \<Rightarrow> bool" where
  "optimality_proved c s =
     (case c of
        GapTolerance \<Rightarrow> round64 (lb s) \<ge> round64 (ub (ost s) - gaptol s)
      | IntegerCeiling \<Rightarrow> of_int \<lceil>lb s\<rceil> \<ge> ub (ost s))"

text \<open>The outcome of a piece of the loop: it executed \<^verbatim>\<open>return\<close>, or control goes on.\<close>

datatype 'a flow = Returned 'a | Continued 'a

fun forE :: "'a list \<Rightarrow> ('a \<Rightarrow> 's \<Rightarrow> error + 's) \<Rightarrow> 's \<Rightarrow> error + 's" where
  "forE [] f s = Inr s"
| "forE (x # xs) f s = bindE (f x s) (forE xs f)"

text \<open>
  The body of \<^verbatim>\<open>for val in [0, 1]\<close> before the call of the oracle:
  \<^verbatim>\<open>
    idxmap0     = np.delete(idxmap, pivot)
    curr0       = np.copy(curr)
    curr0[pidx] = val
  \<close>
  followed by the six assignments of \<open>reduce\<close>.
\<close>

definition child_data ::
  "node \<Rightarrow> nat \<Rightarrow> real \<Rightarrow> error + (mat \<times> vec \<times> real \<times> vec \<times> nat list)" where
  "child_data nd pidx val =
     bindE (np_delete (n_idxmap nd) (n_pivot nd)) (\<lambda>idxmap0.
     bindE (np_setitem (n_curr nd) pidx val) (\<lambda>curr0.
     bindE (reduce (n_Q nd) (n_P nd) (n_R nd) (n_pivot nd) val) (\<lambda>(Q0, P0, R0).
     Inr (Q0, P0, R0, curr0, idxmap0))))"

text \<open>
  One pass of the body: the child's data, then
  \<^verbatim>\<open>
    obj0, pivot0 = self.solveRelaxation(Q0, P0, R0, curr0, idxmap0)
    heapq.heappush(self.active, (obj0, self.relSolved, Q0, P0, R0, curr0, idxmap0, pivot0))
  \<close>
  where \<^verbatim>\<open>self.relSolved\<close> is read after the call.
\<close>

definition branch :: "relaxation \<Rightarrow> node \<Rightarrow> nat \<Rightarrow> real \<Rightarrow> bb \<Rightarrow> error + bb" where
  "branch relax nd pidx val s =
     bindE (child_data nd pidx val) (\<lambda>(Q0, P0, R0, curr0, idxmap0).
     bindE (relax (ost s) Q0 P0 R0 curr0 idxmap0) (\<lambda>((obj0, pivot0), os').
     Inr (s\<lparr>ost := os',
             active := heappush (active s)
               \<lparr>n_obj = obj0, n_seq = relSolved os', n_Q = Q0, n_P = P0, n_R = R0,
                n_curr = curr0, n_idxmap = idxmap0, n_pivot = pivot0\<rparr>\<rparr>)))"

text \<open>
  One iteration of \<^verbatim>\<open>while self.active:\<close>
  \<^verbatim>\<open>
    obj, _, Q, P, R, curr, idxmap, pivot = heapq.heappop(self.active)
    self.lb = obj
    if self.lb >= self.ub - self.gaptol:
        self.active = []
        return
    self.stats()
    if len(P) <= 1: continue
    pidx = idxmap[pivot]
    for val in [0, 1]: ...
  \<close>
  \<^verbatim>\<open>self.stats()\<close> prints a row of the progress table and is left out.
\<close>

definition iteration :: "criterion \<Rightarrow> relaxation \<Rightarrow> bb \<Rightarrow> error + bb flow" where
  "iteration c relax s =
     bindE (heappop (active s)) (\<lambda>(nd, rest).
       let s1 = s\<lparr>active := rest, lb := n_obj nd\<rparr> in
       if optimality_proved c s1 then Inr (Returned (s1\<lparr>active := []\<rparr>))
       else if length (n_P nd) \<le> 1 then Inr (Continued s1)
       else
         bindE (np_index (n_idxmap nd) (n_pivot nd)) (\<lambda>pidx.
         bindE (forE [0, 1] (branch relax nd pidx) s1) (\<lambda>s2.
         Inr (Continued s2))))"

text \<open>
  The measure of the loop. A node of dimension \<open>d\<close>, the larger of the length of \<open>P\<close> and
  the number of rows of \<open>Q\<close>, weighs \<open>2\<^sup>d - 1\<close> (1 when \<open>d = 0\<close>): more than two nodes of
  dimension \<open>d - 1\<close> together.
\<close>

definition node_dim :: "node \<Rightarrow> nat" where
  "node_dim nd = max (length (n_P nd)) (length (n_Q nd))"

definition wt :: "nat \<Rightarrow> nat" where
  "wt d = (if d = 0 then 1 else 2 ^ d - 1)"

definition potential :: "node list \<Rightarrow> nat" where
  "potential h = sum_list (map (\<lambda>nd. wt (node_dim nd)) h)"

subsection \<open>The relaxation oracle\<close>

text \<open>
  \<^verbatim>\<open>solveBB\<close> calls \<^verbatim>\<open>self.solveRelaxation(Q0, P0, R0, curr0, idxmap0)\<close>, a method the
  notebook does not show. In the loop it is a parameter of type \<open>relaxation\<close>; for the
  statements about the incumbent it is the definition \<open>solveRelaxation\<close> below.
\<close>

text \<open>
  Modelled from the spec: the external solver behind \<^verbatim>\<open>solveRelaxation\<close>, which the
  notebook does not show. Given the reduced data it returns the relaxed objective and a
  fractional solution, or fails.
\<close>

type_synonym solver = "mat \<Rightarrow> vec \<Rightarrow> real \<Rightarrow> error + (real \<times> vec)"

text \<open>
  Modelled from the spec: the rounding of a fractional solution inside
  \<^verbatim>\<open>solveRelaxation\<close>, which the notebook does not show: entrywise to 0 or 1 with the
  threshold at one half.
\<close>

definition round01 :: "real \<Rightarrow> real" where
  "round01 t = (if t < 1 / 2 then 0 else 1)"

text \<open>
  Modelled from the spec: the expansion of the rounded free entries into the node's
  assignment inside \<^verbatim>\<open>solveRelaxation\<close>, which the notebook does not show: entry \<open>i\<close> of
  the rounded solution goes to position \<open>idxmap[i]\<close> of the assignment.
\<close>

definition scatter :: "vec \<Rightarrow> nat list \<Rightarrow> vec \<Rightarrow> error + vec" where
  "scatter cur idxmap vs =
     (if length vs \<noteq> length idxmap then Inl ValueError
      else if \<not> list_all (\<lambda>i. i < length cur) idxmap then Inl IndexError
      else Inr (fold (\<lambda>(i, v) c. c[i := v]) (zip idxmap vs) cur))"

text \<open>
  Modelled from the spec: the choice of the branching variable inside
  \<^verbatim>\<open>solveRelaxation\<close>, which the notebook does not show: the entry of the fractional
  solution closest to one half, the smallest index among ties, and 0 when the solution
  has no entry.
\<close>

fun argmin_from :: "nat \<Rightarrow> nat \<Rightarrow> real \<Rightarrow> real list \<Rightarrow> nat" where
  "argmin_from i b bv [] = b"
| "argmin_from i b bv (d # ds) =
     (if d < bv then argmin_from (Suc i) i d ds else argmin_from (Suc i) b bv ds)"

definition closest_half :: "vec \<Rightarrow> nat" where
  "closest_half x =
     (case map (\<lambda>t. \<bar>t - 1 / 2\<bar>) x of [] \<Rightarrow> 0 | d # ds \<Rightarrow> argmin_from 1 0 d ds)"

text \<open>
  Modelled from the spec: \<^verbatim>\<open>solveRelaxation\<close>, the processing of a relaxation result,
  which the notebook does not show (it shows only the call). The external solver \<open>sdp\<close>
  is run on the reduced data; a failure of it is raised. Its solution is rounded, the
  rounded entries are written into the node's assignment, the objective of the original
  problem \<open>(Qo, Po, Ro)\<close> is evaluated at the resulting vector, and the incumbent and the
  upper bound are replaced if the value improves the upper bound. The counter of solved
  relaxations goes up by one. The result is the relaxed objective and the branching
  candidate.
\<close>

definition solveRelaxation :: "solver \<Rightarrow> mat \<Rightarrow> vec \<Rightarrow> real \<Rightarrow> relaxation" where
  "solveRelaxation sdp Qo Po Ro os Q P R cur idxmap =
     bindE (sdp Q P R) (\<lambda>(objv, x).
     bindE (scatter cur idxmap (map round01 x)) (\<lambda>full.
       let v = objective Qo Po Ro full;
           os1 = os\<lparr>relSolved := relSolved os + 1\<rparr>;
           os2 = (if v < ub os1 then os1\<lparr>ub := v, incumbent := full\<rparr> else os1)
       in Inr ((objv, closest_half x), os2)))"

subsection \<open>A worked example\<close>

text \<open>
  Minimise \<open>x\<^sub>1 + x\<^sub>2\<close> over \<open>{0,1}\<^sup>2\<close>. The solver is a test double with canned answers:
  \<open>-1\<close> with solution \<open>(1, 1)\<close> for the root, \<open>-1/2\<close> for the child \<open>x\<^sub>1 = 0\<close> and \<open>1\<close> for
  the child \<open>x\<^sub>1 = 1\<close>, both with solution \<open>(0)\<close>. Each answer is a lower bound of its
  subproblem. The state is the one after the root relaxation: the root is queued and
  its rounding \<open>(1, 1)\<close> is the incumbent.
\<close>

definition example_solver :: solver where
  "example_solver Q P R =
     (if length P = 2 then Inr (-1, [1, 1])
      else if R = 0 then Inr (- 1 / 2, [0])
      else Inr (1, [0]))"

definition example_oracle :: relaxation where
  "example_oracle = solveRelaxation example_solver [[0, 0], [0, 0]] [1, 1] 0"

definition example_root :: node where
  "example_root = \<lparr>n_obj = -1, n_seq = 0, n_Q = [[0, 0], [0, 0]], n_P = [1, 1], n_R = 0,
     n_curr = [0, 0], n_idxmap = [0, 1], n_pivot = 0\<rparr>"

definition example_state :: bb where
  "example_state = \<lparr>active = [example_root], lb = - 10000000000, gaptol = 0,
     ost = \<lparr>ub = 2, relSolved = 1, incumbent = [1, 1]\<rparr>\<rparr>"

definition example_left :: node where
  "example_left = \<lparr>n_obj = - 1 / 2, n_seq = 2, n_Q = [[0]], n_P = [1], n_R = 0,
     n_curr = [0, 0], n_idxmap = [1], n_pivot = 0\<rparr>"

definition example_right :: node where
  "example_right = \<lparr>n_obj = 1, n_seq = 3, n_Q = [[0]], n_P = [1], n_R = 1,
     n_curr = [1, 0], n_idxmap = [1], n_pivot = 0\<rparr>"

definition example_state2 :: bb where
  "example_state2 = \<lparr>active = [example_left, example_right], lb = -1, gaptol = 0,
     ost = \<lparr>ub = 0, relSolved = 3, incumbent = [0, 0]\<rparr>\<rparr>"

subsection \<open>Invariants and reachable states\<close>

text \<open>
  The invariant of a node for a problem in \<open>n\<close> variables: its matrix is square of the
  order of its vector, its index map has that length, and the entries of the index map
  are pairwise distinct and below \<open>n\<close>.
\<close>

definition node_inv :: "nat \<Rightarrow> node \<Rightarrow> bool" where
  "node_inv n nd \<longleftrightarrow>
     square (length (n_P nd)) (n_Q nd)
     \<and> length (n_idxmap nd) = length (n_P nd)
     \<and> distinct (n_idxmap nd)
     \<and> list_all (\<lambda>i. i < n) (n_idxmap nd)"

text \<open>
  The states at the start of the iterations of one run: \<open>reaches c relax s t\<close> when the
  loop started in \<open>s\<close> is at the top of an iteration in \<open>t\<close>.
\<close>

inductive reaches :: "criterion \<Rightarrow> relaxation \<Rightarrow> bb \<Rightarrow> bb \<Rightarrow> bool"
  for c :: criterion and relax :: relaxation and s :: bb where
  reaches_start: "reaches c relax s s"
| reaches_step:
    "reaches c relax s t \<Longrightarrow> active t \<noteq> [] \<Longrightarrow> iteration c relax t = Inr (Continued u)
     \<Longrightarrow> reaches c relax s u"

subsection \<open>The loop terminates\<close>

lemma bindE_Inr:
  "bindE m f = Inr y \<longleftrightarrow> (\<exists>x. m = Inr x \<and> f x = Inr y)"
  by (cases m) (simp_all add: bindE_def)

lemma bindE_Inl:
  "bindE m f = Inl e \<longleftrightarrow> m = Inl e \<or> (\<exists>x. m = Inr x \<and> f x = Inl e)"
  by (cases m) (simp_all add: bindE_def)

lemma two_le_power: "d \<noteq> 0 \<Longrightarrow> (2::nat) \<le> 2 ^ d"
  using power_increasing [of 1 d "2::nat"] by simp

lemma wt_pos: "0 < wt d"
  using two_le_power [of d] by (auto simp: wt_def)

lemma wt_mono: "a \<le> b \<Longrightarrow> wt a \<le> wt b"
proof -
  assume ab: "a \<le> b"
  have "(2::nat) ^ a \<le> 2 ^ b" using ab by (simp add: power_increasing)
  moreover have "(1::nat) \<le> 2 ^ b - 1" if "b \<noteq> 0"
    using two_le_power [OF that] by simp
  ultimately show ?thesis using ab by (auto simp: wt_def diff_le_mono)
qed

lemma wt_double: "2 \<le> d \<Longrightarrow> 2 * wt (d - 1) < wt d"
proof -
  assume d: "2 \<le> d"
  then obtain k where k: "d = Suc (Suc k)" by (metis add_2_eq_Suc le_Suc_ex)
  define m :: nat where "m = 2 ^ k"
  have "1 \<le> m" by (simp add: m_def)
  then have "2 * (2 * m - 1) < 4 * m - 1" by arith
  then show ?thesis unfolding k by (simp add: wt_def m_def)
qed

lemma potential_heappush: "potential (heappush h x) = wt (node_dim x) + potential h"
  by (induction h) (simp_all add: potential_def)

lemma np_add_length:
  "np_add a b = Inr c \<Longrightarrow> length c \<le> max (length a) (length b)"
  by (auto simp: np_add_def split: if_splits)

lemma reduce_dims:
  assumes "reduce Q P R p v = Inr (Q0, P0, R0)"
  shows "p < length Q \<and> p < length P \<and> length Q0 = length Q - 1
       \<and> length P0 \<le> max (length P - 1) (length Q - 1)"
proof -
  from assms obtain QT QZ PT where
    qt: "np_delete Q p = Inr QT" and q0: "np_delete_axis1 QT p = Inr Q0"
    and qz: "np_column QT p = Inr QZ" and pt: "np_delete P p = Inr PT"
    and p0: "np_add PT (scale (2 * v) QZ) = Inr P0"
    unfolding reduce_def by (auto simp: bindE_Inr)
  have 1: "p < length Q" "length QT = length Q - 1"
    using qt by (auto simp: np_delete_def delete_at_def split: if_splits)
  have 2: "p < length P" "length PT = length P - 1"
    using pt by (auto simp: np_delete_def delete_at_def split: if_splits)
  have 3: "length Q0 = length QT" using q0 by (auto simp: np_delete_axis1_def split: if_splits)
  have 4: "length QZ = length QT" using qz by (auto simp: np_column_def split: if_splits)
  have "length P0 \<le> max (length PT) (length (scale (2 * v) QZ))"
    by (rule np_add_length [OF p0])
  then show ?thesis using 1 2 3 4 by (simp add: scale_def)
qed

lemma child_data_dims:
  assumes "child_data nd pidx val = Inr (Q0, P0, R0, curr0, idxmap0)"
  shows "1 \<le> node_dim nd \<and> max (length P0) (length Q0) \<le> node_dim nd - 1"
proof -
  from assms have "reduce (n_Q nd) (n_P nd) (n_R nd) (n_pivot nd) val = Inr (Q0, P0, R0)"
    unfolding child_data_def by (auto simp: bindE_Inr)
  from reduce_dims [OF this] show ?thesis by (auto simp: node_dim_def)
qed

lemma branch_potential:
  assumes "branch orc nd pidx val s = Inr s'"
  shows "potential (active s') \<le> potential (active s) + wt (node_dim nd - 1)"
proof -
  from assms obtain Q0 P0 R0 curr0 idxmap0 obj0 pivot0 os' where
    cd: "child_data nd pidx val = Inr (Q0, P0, R0, curr0, idxmap0)"
    and s': "s' = s\<lparr>ost := os', active := heappush (active s)
               \<lparr>n_obj = obj0, n_seq = relSolved os', n_Q = Q0, n_P = P0, n_R = R0,
                n_curr = curr0, n_idxmap = idxmap0, n_pivot = pivot0\<rparr>\<rparr>"
    unfolding branch_def by (auto simp: bindE_Inr)
  have "wt (max (length P0) (length Q0)) \<le> wt (node_dim nd - 1)"
    using child_data_dims [OF cd] by (intro wt_mono) simp
  then show ?thesis by (simp add: s' potential_heappush node_dim_def)
qed

lemma iteration_potential:
  assumes "iteration c orc s = Inr (Continued s')"
  shows "potential (active s') < potential (active s)"
proof -
  from assms obtain nd rest where pop: "heappop (active s) = Inr (nd, rest)"
    unfolding iteration_def by (auto simp: bindE_Inr)
  then have act: "active s = nd # rest" by (auto simp: heappop_def split: list.splits)
  let ?s1 = "s\<lparr>active := rest, lb := n_obj nd\<rparr>"
  show ?thesis
  proof (cases "length (n_P nd) \<le> 1")
    case True
    with assms pop have "s' = ?s1"
      by (auto simp: iteration_def bindE_Inr Let_def split: if_splits)
    then show ?thesis using act wt_pos [of "node_dim nd"] by (simp add: potential_def)
  next
    case False
    with assms pop obtain pidx s2 where
      b0: "branch orc nd pidx 0 ?s1 = Inr s2" and b1: "branch orc nd pidx 1 s2 = Inr s'"
      by (auto simp: iteration_def bindE_Inr Let_def split: if_splits)
    have d: "2 \<le> node_dim nd" using False by (simp add: node_dim_def)
    have "potential (active s') \<le> potential rest + 2 * wt (node_dim nd - 1)"
      using branch_potential [OF b0] branch_potential [OF b1] by simp
    also have "\<dots> < potential rest + wt (node_dim nd)" using wt_double [OF d] by simp
    finally show ?thesis using act by (simp add: potential_def)
  qed
qed

text \<open>
  The loop \<^verbatim>\<open>while self.active:\<close>. \<open>Returned\<close> is the \<^verbatim>\<open>return\<close> inside the loop,
  \<open>Continued\<close> the end of the loop on an empty queue; an exception ends the call.
\<close>

function solveBB :: "criterion \<Rightarrow> relaxation \<Rightarrow> bb \<Rightarrow> error + bb flow" where
  "solveBB c relax s =
     (if active s = [] then Inr (Continued s)
      else
        (case iteration c relax s of
           Inl e \<Rightarrow> Inl e
         | Inr (Returned s') \<Rightarrow> Inr (Returned s')
         | Inr (Continued s') \<Rightarrow> solveBB c relax s'))"
  by pat_completeness auto
termination
  by (relation "measure (\<lambda>(c, orc, s). potential (active s))")
     (auto dest: iteration_potential)

declare solveBB.simps [simp del]

subsection \<open>The lower bounds of a run\<close>

text \<open>
  The values \<^verbatim>\<open>self.lb\<close> takes in the successive iterations of the loop: the objective
  of each popped node, in the order of the pops. The list ends with the iteration that
  returns or raises, or when the queue is empty.
\<close>

function lb_trace :: "criterion \<Rightarrow> relaxation \<Rightarrow> bb \<Rightarrow> real list" where
  "lb_trace c relax s =
     (if active s = [] then []
      else n_obj (hd (active s)) #
        (case iteration c relax s of
           Inl e \<Rightarrow> []
         | Inr (Returned s') \<Rightarrow> []
         | Inr (Continued s') \<Rightarrow> lb_trace c relax s'))"
  by pat_completeness auto
termination
  by (relation "measure (\<lambda>(c, orc, s). potential (active s))")
     (auto dest: iteration_potential)

declare lb_trace.simps [simp del]

text \<open>
  The objective the oracle returns is a function \<open>bound\<close> of the reduced data when
  \<open>returns_bound\<close> holds; a node is \<open>tied\<close> when it carries that value. The function is
  \<open>monotone_bound\<close> when fixing a variable of a symmetric problem to 0 or 1 does not
  decrease it, as the optimal value of a relaxation does.
\<close>

definition tied :: "(mat \<Rightarrow> vec \<Rightarrow> real \<Rightarrow> real) \<Rightarrow> node \<Rightarrow> bool" where
  "tied bound nd \<longleftrightarrow> n_obj nd = bound (n_Q nd) (n_P nd) (n_R nd)"

definition problem_ok :: "node \<Rightarrow> bool" where
  "problem_ok nd \<longleftrightarrow> square (length (n_P nd)) (n_Q nd) \<and> symmetric (n_Q nd)"

definition returns_bound :: "(mat \<Rightarrow> vec \<Rightarrow> real \<Rightarrow> real) \<Rightarrow> relaxation \<Rightarrow> bool" where
  "returns_bound bound relax \<longleftrightarrow>
     (\<forall>os Q P R cur im obj pv os'.
        relax os Q P R cur im = Inr ((obj, pv), os') \<longrightarrow> obj = bound Q P R)"

definition monotone_bound :: "(mat \<Rightarrow> vec \<Rightarrow> real \<Rightarrow> real) \<Rightarrow> bool" where
  "monotone_bound bound \<longleftrightarrow>
     (\<forall>Q P R p v Q0 P0 R0.
        square (length P) Q \<and> symmetric Q \<and> (v = 0 \<or> v = 1)
        \<and> reduce Q P R p v = Inr (Q0, P0, R0)
        \<longrightarrow> bound Q P R \<le> bound Q0 P0 R0)"

definition queue_ok :: "(mat \<Rightarrow> vec \<Rightarrow> real \<Rightarrow> real) \<Rightarrow> node list \<Rightarrow> bool" where
  "queue_ok bound h \<longleftrightarrow>
     sorted (map n_obj h) \<and> list_all (tied bound) h \<and> list_all problem_ok h"

text \<open>The exact optimum, by enumeration of \<open>{0,1}\<^sup>n\<close>, and integral problem data.\<close>

fun binary_vectors :: "nat \<Rightarrow> vec list" where
  "binary_vectors 0 = [[]]"
| "binary_vectors (Suc n) = map ((#) 0) (binary_vectors n) @ map ((#) 1) (binary_vectors n)"

definition optimum :: "mat \<Rightarrow> vec \<Rightarrow> real \<Rightarrow> real" where
  "optimum Q P R = Min (set (map (objective Q P R) (binary_vectors (length P))))"

definition integral_data :: "mat \<Rightarrow> vec \<Rightarrow> real \<Rightarrow> bool" where
  "integral_data Q P R \<longleftrightarrow>
     list_all (list_all (\<lambda>q. q \<in> \<int>)) Q \<and> list_all (\<lambda>p. p \<in> \<int>) P \<and> R \<in> \<int>"

text \<open>
  One more test double: \<open>exact_oracle\<close> answers the exact optimum of the reduced
  problem, the value of the tightest relaxation, and rounds nothing. \<open>exact_state\<close> is the
  start of a run on \<open>x\<^sub>1 - x\<^sub>2\<close>.
\<close>

definition exact_oracle :: relaxation where
  "exact_oracle os Q P R cur im =
     Inr ((optimum Q P R, 0), os\<lparr>relSolved := relSolved os + 1\<rparr>)"

definition exact_state :: bb where
  "exact_state = \<lparr>active = [\<lparr>n_obj = -1, n_seq = 0, n_Q = [[0, 0], [0, 0]], n_P = [1, -1],
       n_R = 0, n_curr = [0, 0], n_idxmap = [0, 1], n_pivot = 0\<rparr>],
     lb = - 10000000000, gaptol = 0,
     ost = \<lparr>ub = 2, relSolved = 1, incumbent = [1, 0]\<rparr>\<rparr>"

text \<open>The state in which the run of the worked example ends.\<close>

definition example_final :: bb where
  "example_final = \<lparr>active = [], lb = 1, gaptol = 0,
     ost = \<lparr>ub = 0, relSolved = 3, incumbent = [0, 0]\<rparr>\<rparr>"

text \<open>
  A state in which binary64 numbers are 2 apart: the objective is constant
  \<open>10\<^sup>1\<^sup>6\<close>, the incumbent has that value, the tolerance is \<open>3/2\<close> and the queued root
  carries the lower bound \<open>10\<^sup>1\<^sup>6 - 2\<close>. The three numbers are binary64 numbers.
\<close>

definition coarse_state :: bb where
  "coarse_state = \<lparr>active = [\<lparr>n_obj = 9999999999999998, n_seq = 0,
       n_Q = [[0, 0], [0, 0]], n_P = [0, 0], n_R = 10000000000000000,
       n_curr = [0, 0], n_idxmap = [0, 1], n_pivot = 0\<rparr>],
     lb = - 10000000000, gaptol = 3 / 2,
     ost = \<lparr>ub = 10000000000000000, relSolved = 1, incumbent = [0, 0]\<rparr>\<rparr>"

subsection \<open>The incumbent\<close>

text \<open>
  A vector is \<open>binary\<close> when its entries are 0 or 1. The incumbent is in order for the
  original problem \<open>(Qo, Po, Ro)\<close> when it is a binary vector of the problem's length
  whose objective is the upper bound. The assignment of a node is in order when it has
  the problem's length and is 0 or 1 at every position its index map does not list.
\<close>

definition binary :: "vec \<Rightarrow> bool" where
  "binary x \<longleftrightarrow> list_all (\<lambda>t. t = 0 \<or> t = 1) x"

definition incumbent_ok :: "mat \<Rightarrow> vec \<Rightarrow> real \<Rightarrow> ostate \<Rightarrow> bool" where
  "incumbent_ok Qo Po Ro os \<longleftrightarrow>
     binary (incumbent os) \<and> length (incumbent os) = length Po
     \<and> objective Qo Po Ro (incumbent os) = ub os"

definition assign_ok :: "nat \<Rightarrow> node \<Rightarrow> bool" where
  "assign_ok n nd \<longleftrightarrow>
     length (n_curr nd) = n
     \<and> list_all (\<lambda>j. j \<in> set (n_idxmap nd) \<or> n_curr nd ! j = 0 \<or> n_curr nd ! j = 1) [0..<n]"

definition state_ok :: "mat \<Rightarrow> vec \<Rightarrow> real \<Rightarrow> bb \<Rightarrow> bool" where
  "state_ok Qo Po Ro s \<longleftrightarrow>
     incumbent_ok Qo Po Ro (ost s) \<and> list_all (assign_ok (length Po)) (active s)"

text \<open>An oracle that raises on the child \<open>x\<^sub>1 = 1\<close> of the worked example.\<close>

definition flaky_oracle :: relaxation where
  "flaky_oracle os Q P R cur im =
     (if R = 1 then Inl SolverError else example_oracle os Q P R cur im)"

subsection \<open>Arrays by reference\<close>

text \<open>
  For the statements about aliasing the arrays live in a store, a list of arrays in
  which an address is a position, and a node holds the addresses of its arrays.
\<close>

datatype array = FloatArray vec | Matrix mat | IndexArray "nat list"

type_synonym store = "array list"

record ref_node =
  ref_Q :: nat
  ref_P :: nat
  val_R :: real
  ref_curr :: nat
  ref_idxmap :: nat
  val_pivot :: nat

text \<open>A new array gets the next free address; nothing else in the store changes.\<close>

definition allocate :: "store \<Rightarrow> array \<Rightarrow> nat \<times> store" where
  "allocate st a = (length st, st @ [a])"

text \<open>
  Reading through a reference. A reference always points to an array of its kind in a
  running program; the other cases are errors of the model.
\<close>

definition fetch :: "store \<Rightarrow> nat \<Rightarrow> error + array" where
  "fetch st a = (if a < length st then Inr (st ! a) else Inl TypeError)"

definition fetch_vec :: "store \<Rightarrow> nat \<Rightarrow> error + vec" where
  "fetch_vec st a = bindE (fetch st a) (\<lambda>x. case x of FloatArray v \<Rightarrow> Inr v | _ \<Rightarrow> Inl TypeError)"

definition fetch_mat :: "store \<Rightarrow> nat \<Rightarrow> error + mat" where
  "fetch_mat st a = bindE (fetch st a) (\<lambda>x. case x of Matrix m \<Rightarrow> Inr m | _ \<Rightarrow> Inl TypeError)"

definition fetch_idx :: "store \<Rightarrow> nat \<Rightarrow> error + nat list" where
  "fetch_idx st a = bindE (fetch st a) (\<lambda>x. case x of IndexArray i \<Rightarrow> Inr i | _ \<Rightarrow> Inl TypeError)"

text \<open>
  \<^verbatim>\<open>np.delete\<close> and \<^verbatim>\<open>np.copy\<close> return a new array. \<^verbatim>\<open>curr0[pidx] = val\<close> writes into
  the array \<open>curr0\<close> refers to. \<^verbatim>\<open>QT[:,pivot]\<close> is a view: it is kept as the pair of the
  address of \<open>QT\<close> and the column, and read through \<open>QT\<close> where it is used. The sum
  \<^verbatim>\<open>PT + 2*val*QZ\<close> is a new array.
\<close>

definition ref_delete_idx :: "store \<Rightarrow> nat \<Rightarrow> nat \<Rightarrow> error + (nat \<times> store)" where
  "ref_delete_idx st a i =
     bindE (fetch_idx st a) (\<lambda>xs. bindE (np_delete xs i) (\<lambda>ys. Inr (allocate st (IndexArray ys))))"

definition ref_delete_vec :: "store \<Rightarrow> nat \<Rightarrow> nat \<Rightarrow> error + (nat \<times> store)" where
  "ref_delete_vec st a i =
     bindE (fetch_vec st a) (\<lambda>xs. bindE (np_delete xs i) (\<lambda>ys. Inr (allocate st (FloatArray ys))))"

definition ref_delete_axis0 :: "store \<Rightarrow> nat \<Rightarrow> nat \<Rightarrow> error + (nat \<times> store)" where
  "ref_delete_axis0 st a i =
     bindE (fetch_mat st a) (\<lambda>M. bindE (np_delete M i) (\<lambda>N. Inr (allocate st (Matrix N))))"

definition ref_delete_axis1 :: "store \<Rightarrow> nat \<Rightarrow> nat \<Rightarrow> error + (nat \<times> store)" where
  "ref_delete_axis1 st a j =
     bindE (fetch_mat st a) (\<lambda>M. bindE (np_delete_axis1 M j) (\<lambda>N. Inr (allocate st (Matrix N))))"

definition ref_copy :: "store \<Rightarrow> nat \<Rightarrow> error + (nat \<times> store)" where
  "ref_copy st a = bindE (fetch_vec st a) (\<lambda>xs. Inr (allocate st (FloatArray xs)))"

definition ref_setitem :: "store \<Rightarrow> nat \<Rightarrow> nat \<Rightarrow> real \<Rightarrow> error + store" where
  "ref_setitem st a i v =
     bindE (fetch_vec st a) (\<lambda>xs. bindE (np_setitem xs i v) (\<lambda>ys. Inr (st[a := FloatArray ys])))"

definition ref_column :: "store \<Rightarrow> nat \<Rightarrow> nat \<Rightarrow> error + vec" where
  "ref_column st a j = bindE (fetch_mat st a) (\<lambda>M. np_column M j)"

definition ref_add_scaled :: "store \<Rightarrow> nat \<Rightarrow> real \<Rightarrow> nat \<times> nat \<Rightarrow> error + (nat \<times> store)" where
  "ref_add_scaled st a c view =
     bindE (fetch_vec st a) (\<lambda>xs.
     bindE (ref_column st (fst view) (snd view)) (\<lambda>col.
     bindE (np_add xs (scale c col)) (\<lambda>ys. Inr (allocate st (FloatArray ys)))))"

text \<open>
  The body of \<^verbatim>\<open>for val in [0, 1]\<close> up to the call of the oracle, statement by
  statement, on the store: the result holds the references of \<^verbatim>\<open>Q0\<close>, \<^verbatim>\<open>P0\<close>,
  \<^verbatim>\<open>curr0\<close> and \<^verbatim>\<open>idxmap0\<close> and the value \<^verbatim>\<open>R0\<close>.
\<close>

definition build_child ::
  "store \<Rightarrow> ref_node \<Rightarrow> nat \<Rightarrow> real \<Rightarrow> error + ((nat \<times> nat \<times> real \<times> nat \<times> nat) \<times> store)" where
  "build_child st nd pidx val =
     bindE (ref_delete_idx st (ref_idxmap nd) (val_pivot nd)) (\<lambda>(idxmap0, st1).
     bindE (ref_copy st1 (ref_curr nd)) (\<lambda>(curr0, st2).
     bindE (ref_setitem st2 curr0 pidx val) (\<lambda>st3.
     bindE (ref_delete_axis0 st3 (ref_Q nd) (val_pivot nd)) (\<lambda>(QT, st4).
     bindE (ref_delete_axis1 st4 QT (val_pivot nd)) (\<lambda>(Q0, st5).
     bindE (ref_column st5 QT (val_pivot nd)) (\<lambda>QZ_now.
     bindE (ref_delete_vec st5 (ref_P nd) (val_pivot nd)) (\<lambda>(PT, st6).
     bindE (ref_add_scaled st6 PT (2 * val) (QT, val_pivot nd)) (\<lambda>(P0, st7).
     bindE (fetch_mat st7 (ref_Q nd)) (\<lambda>Q.
     bindE (np_index2 Q (val_pivot nd) (val_pivot nd)) (\<lambda>qpp.
     bindE (fetch_vec st7 (ref_P nd)) (\<lambda>P.
     bindE (np_index P (val_pivot nd)) (\<lambda>pp.
     Inr ((Q0, P0, val * qpp + val * pp + val_R nd, curr0, idxmap0), st7)))))))))))))"

text \<open>Both passes of the loop, for \<open>val = 0\<close> and then \<open>val = 1\<close>, on the same parent.\<close>

definition expand_refs ::
  "store \<Rightarrow> ref_node \<Rightarrow> nat \<Rightarrow>
   error + ((nat \<times> nat \<times> real \<times> nat \<times> nat) \<times> (nat \<times> nat \<times> real \<times> nat \<times> nat) \<times> store)" where
  "expand_refs st nd pidx =
     bindE (build_child st nd pidx 0) (\<lambda>(child0, st1).
     bindE (build_child st1 nd pidx 1) (\<lambda>(child1, st2).
     Inr (child0, child1, st2)))"

text \<open>The arrays behind the references of a node, and the node they make up.\<close>

definition load :: "store \<Rightarrow> nat \<times> nat \<times> real \<times> nat \<times> nat \<Rightarrow> error + (mat \<times> vec \<times> real \<times> vec \<times> nat list)" where
  "load st r = (case r of (aQ, aP, R, ac, ai) \<Rightarrow>
     bindE (fetch_mat st aQ) (\<lambda>Q.
     bindE (fetch_vec st aP) (\<lambda>P.
     bindE (fetch_vec st ac) (\<lambda>cur.
     bindE (fetch_idx st ai) (\<lambda>im. Inr (Q, P, R, cur, im))))))"

definition refs_of :: "ref_node \<Rightarrow> nat \<times> nat \<times> real \<times> nat \<times> nat" where
  "refs_of nd = (ref_Q nd, ref_P nd, val_R nd, ref_curr nd, ref_idxmap nd)"

definition node_of :: "mat \<times> vec \<times> real \<times> vec \<times> nat list \<Rightarrow> nat \<Rightarrow> node" where
  "node_of d pv = (case d of (Q, P, R, cur, im) \<Rightarrow>
     \<lparr>n_obj = 0, n_seq = 0, n_Q = Q, n_P = P, n_R = R, n_curr = cur, n_idxmap = im, n_pivot = pv\<rparr>)"

definition example_store :: store where
  "example_store =
     [Matrix [[0, 0], [0, 0]], FloatArray [1, 1], FloatArray [0, 0], IndexArray [0, 1]]"

definition example_refs :: ref_node where
  "example_refs = \<lparr>ref_Q = 0, ref_P = 1, val_R = 0, ref_curr = 2, ref_idxmap = 3, val_pivot = 0\<rparr>"

section \<open>Reduction correctness\<close>

lemma dot_split:
  "p < length xs \<Longrightarrow> length ys = length xs \<Longrightarrow>
   dot xs ys = xs ! p * ys ! p + dot (delete_at p xs) (delete_at p ys)"
proof -
  assume p: "p < length xs" and l: "length ys = length xs"
  have xs: "xs = take p xs @ xs ! p # drop (Suc p) xs" using p by (simp add: id_take_nth_drop)
  have ys: "ys = take p ys @ ys ! p # drop (Suc p) ys" using p l by (simp add: id_take_nth_drop)
  have "dot xs ys = dot (take p xs @ xs ! p # drop (Suc p) xs) (take p ys @ ys ! p # drop (Suc p) ys)"
    using xs ys by simp
  also have "\<dots> = xs ! p * ys ! p + dot (delete_at p xs) (delete_at p ys)"
    using p l by (simp add: dot_def delete_at_def zip_append)
  finally show ?thesis .
qed

lemma insert_at_nth: "p \<le> length y \<Longrightarrow> insert_at p v y ! p = v"
  by (simp add: insert_at_def nth_append)

lemma delete_insert: "p \<le> length y \<Longrightarrow> delete_at p (insert_at p v y) = y"
  by (simp add: insert_at_def delete_at_def)

lemma length_insert_at: "length (insert_at p v y) = Suc (length y)"
  by (simp add: insert_at_def)

lemma dot_insert:
  "p \<le> length y \<Longrightarrow> length row = Suc (length y) \<Longrightarrow>
   dot row (insert_at p v y) = row ! p * v + dot (delete_at p row) y"
  using dot_split [of p row "insert_at p v y"]
  by (simp add: insert_at_nth delete_insert length_insert_at)

lemma dot_add_right: "length a = length b \<Longrightarrow> dot y (map2 (+) a b) = dot y a + dot y b"
proof (induction y arbitrary: a b)
  case Nil then show ?case by (simp add: dot_def)
next
  case (Cons x y)
  then show ?case by (cases a; cases b) (auto simp: dot_def algebra_simps)
qed

lemma dot_scale_right: "dot y (scale c a) = c * dot y a"
proof (induction y arbitrary: a)
  case Nil then show ?case by (simp add: dot_def scale_def)
next
  case (Cons x y)
  then show ?case by (cases a) (auto simp: dot_def scale_def algebra_simps)
qed

lemma dot_commute: "dot a b = dot b a"
proof (induction a arbitrary: b)
  case Nil then show ?case by (simp add: dot_def)
next
  case (Cons x a)
  then show ?case by (cases b) (auto simp: dot_def)
qed


lemma reduce_ok:
  assumes sq: "square n Q" and lp: "length P = n" and p: "pivot < n"
  shows "reduce Q P R pivot val =
     Inr (map (delete_at pivot) (delete_at pivot Q),
          map2 (+) (delete_at pivot P) (scale (2 * val) (map (\<lambda>row. row ! pivot) (delete_at pivot Q))),
          val * (Q ! pivot ! pivot) + val * (P ! pivot) + R)"
proof -
  have rows: "\<And>row. row \<in> set Q \<Longrightarrow> length row = n"
    using sq by (simp add: square_def list_all_iff)
  have lq: "length Q = n" using sq by (simp add: square_def)
  have sub: "set (delete_at pivot Q) \<subseteq> set Q"
    by (auto simp: delete_at_def dest: in_set_takeD in_set_dropD)
  have all: "list_all (\<lambda>row. pivot < length row) (delete_at pivot Q)"
    using rows sub p by (auto simp: list_all_iff)
  have len: "length (delete_at pivot P) = length (scale (2 * val) (map (\<lambda>row. row ! pivot) (delete_at pivot Q)))"
    using lp lq p by (simp add: delete_at_def scale_def)
  have qp: "pivot < length (Q ! pivot)" using rows lq p by simp
  show ?thesis
    using lq lp p all len qp
    by (simp add: reduce_def bindE_def np_delete_def np_delete_axis1_def np_column_def
        np_add_def np_index2_def np_index_def)
qed


lemma length_delete_at: "p < length xs \<Longrightarrow> length (delete_at p xs) = length xs - 1"
  by (simp add: delete_at_def)

lemma nth_delete_at:
  "i < length xs - 1 \<Longrightarrow> delete_at p xs ! i = (if i < p then xs ! i else xs ! Suc i)"
  by (auto simp: delete_at_def nth_append min_def)

lemma map_delete_at: "map f (delete_at p xs) = delete_at p (map f xs)"
  by (simp add: delete_at_def take_map drop_map)

lemma set_delete_at: "set (delete_at p xs) \<subseteq> set xs"
  by (auto simp: delete_at_def dest: in_set_takeD in_set_dropD)

lemma symmetric_nth:
  "symmetric Q \<Longrightarrow> i < length Q \<Longrightarrow> j < length Q \<Longrightarrow> Q ! i ! j = Q ! j ! i"
  by (simp add: symmetric_def list_all_iff)

lemma column_eq_row:
  assumes sq: "square n Q" and sy: "symmetric Q" and p: "p < n"
  shows "map (\<lambda>row. row ! p) (delete_at p Q) = delete_at p (Q ! p)"
proof (rule nth_equalityI)
  have lq: "length Q = n" using sq by (simp add: square_def)
  have lr: "length (Q ! p) = n" using sq p by (simp add: square_def list_all_length)
  show "length (map (\<lambda>row. row ! p) (delete_at p Q)) = length (delete_at p (Q ! p))"
    using lq lr p by (simp add: length_delete_at)
  fix i assume "i < length (map (\<lambda>row. row ! p) (delete_at p Q))"
  then have i: "i < n - 1" using lq p by (simp add: length_delete_at)
  then have "map (\<lambda>row. row ! p) (delete_at p Q) ! i = (if i < p then Q ! i ! p else Q ! Suc i ! p)"
    using lq p by (simp add: length_delete_at nth_delete_at)
  moreover have "delete_at p (Q ! p) ! i = (if i < p then Q ! p ! i else Q ! p ! Suc i)"
    using lr i by (simp add: nth_delete_at)
  moreover have "Q ! i ! p = Q ! p ! i" "Q ! Suc i ! p = Q ! p ! Suc i"
    using sy lq i p by (simp_all add: symmetric_nth)
  ultimately show "map (\<lambda>row. row ! p) (delete_at p Q) ! i = delete_at p (Q ! p) ! i"
    by simp
qed

lemma map2_add_map: "map2 (+) (map f xs) (map g xs) = map (\<lambda>r. f r + (g r :: real)) xs"
  by (induction xs) simp_all

lemma length_scale: "length (scale c xs) = length xs"
  by (simp add: scale_def)

lemma quad_insert:
  assumes sq: "square n Q" and sy: "symmetric Q" and p: "p < n" and ly: "length y = n - 1"
  shows "quad Q (insert_at p v y) =
     v * v * (Q ! p ! p) + 2 * v * dot (map (\<lambda>row. row ! p) (delete_at p Q)) y
       + quad (map (delete_at p) (delete_at p Q)) y"
proof -
  let ?x = "insert_at p v y"
  let ?QT = "delete_at p Q"
  let ?QZ = "map (\<lambda>row. row ! p) ?QT"
  let ?Q0 = "map (delete_at p) ?QT"
  have lq: "length Q = n" using sq by (simp add: square_def)
  have rows: "\<And>row. row \<in> set Q \<Longrightarrow> length row = n"
    using sq by (simp add: square_def list_all_iff)
  have py: "p \<le> length y" and ny: "n = Suc (length y)" using p ly by simp_all
  have lx: "length ?x = n" using ny by (simp add: length_insert_at)
  have row_dot: "dot row ?x = row ! p * v + dot (delete_at p row) y" if "row \<in> set Q" for row
    using rows [OF that] py ny by (simp add: dot_insert)
  have "quad Q ?x = ?x ! p * (map (\<lambda>row. dot row ?x) Q) ! p
        + dot (delete_at p ?x) (delete_at p (map (\<lambda>row. dot row ?x) Q))"
    unfolding quad_def using dot_split [of p ?x "map (\<lambda>row. dot row ?x) Q"] lx lq p by simp
  also have "?x ! p = v" using py by (simp add: insert_at_nth)
  also have "delete_at p ?x = y" using py by (simp add: delete_insert)
  also have "(map (\<lambda>row. dot row ?x) Q) ! p = Q ! p ! p * v + dot (delete_at p (Q ! p)) y"
    using row_dot [of "Q ! p"] lq p by simp
  also have "delete_at p (map (\<lambda>row. dot row ?x) Q) = map (\<lambda>row. dot row ?x) ?QT"
    by (simp add: map_delete_at)
  also have "map (\<lambda>row. dot row ?x) ?QT = map2 (+) (scale v ?QZ) (map (\<lambda>row. dot row y) ?Q0)"
  proof -
    have "map (\<lambda>row. dot row ?x) ?QT = map (\<lambda>row. row ! p * v + dot (delete_at p row) y) ?QT"
      using row_dot set_delete_at [of p Q] by (intro map_cong) auto
    also have "\<dots> = map2 (+) (scale v ?QZ) (map (\<lambda>row. dot row y) ?Q0)"
      by (simp add: scale_def o_def map2_add_map mult.commute)
    finally show ?thesis .
  qed
  also have "dot y (map2 (+) (scale v ?QZ) (map (\<lambda>row. dot row y) ?Q0))
      = v * dot y ?QZ + quad ?Q0 y"
    by (simp add: dot_add_right dot_scale_right length_scale quad_def)
  also have "delete_at p (Q ! p) = ?QZ"
    using column_eq_row [OF sq sy p] by simp
  finally show ?thesis
    by (simp add: algebra_simps dot_commute [of y])
qed



text \<open>
  Claim C1 (reduction correctness). For a symmetric \<open>n \<times> n\<close> matrix \<open>Q\<close>, a vector \<open>P\<close>
  of length \<open>n\<close>, a scalar \<open>R\<close>, a pivot below \<open>n\<close> and a value \<open>val\<close> in \<open>{0, 1}\<close>, the
  expansion step succeeds with \<open>Q0\<close> = \<open>Q\<close> without row and column \<open>pivot\<close>,
  \<open>P0\<close> = \<open>P\<close> without entry \<open>pivot\<close> plus \<open>2 \<cdot> val\<close> times column \<open>pivot\<close> of \<open>Q\<close>
  without entry \<open>pivot\<close>, and \<open>R0 = val \<cdot> Q[pivot,pivot] + val \<cdot> P[pivot] + R\<close>; and for
  every assignment \<open>y\<close> of the remaining \<open>n - 1\<close> variables the reduced objective at \<open>y\<close>
  is the original objective at \<open>y\<close> with \<open>val\<close> inserted at position \<open>pivot\<close>.
\<close>

theorem reduction_correct:
  assumes sq: "square n Q" and sy: "symmetric Q" and lp: "length P = n"
    and p: "pivot < n" and v: "val = 0 \<or> val = 1" and ly: "length y = n - 1"
  shows "\<exists>Q0 P0 R0. reduce Q P R pivot val = Inr (Q0, P0, R0)
      \<and> Q0 = map (delete_at pivot) (delete_at pivot Q)
      \<and> P0 = map2 (+) (delete_at pivot P) (scale (2 * val) (delete_at pivot (map (\<lambda>row. row ! pivot) Q)))
      \<and> R0 = val * (Q ! pivot ! pivot) + val * (P ! pivot) + R
      \<and> objective Q0 P0 R0 y = objective Q P R (insert_at pivot val y)"
proof -
  let ?QT = "delete_at pivot Q"
  let ?QZ = "map (\<lambda>row. row ! pivot) ?QT"
  let ?Q0 = "map (delete_at pivot) ?QT"
  let ?PT = "delete_at pivot P"
  let ?P0 = "map2 (+) ?PT (scale (2 * val) ?QZ)"
  let ?R0 = "val * (Q ! pivot ! pivot) + val * (P ! pivot) + R"
  have lq: "length Q = n" using sq by (simp add: square_def)
  have py: "pivot \<le> length y" and ny: "n = Suc (length y)" using p ly by simp_all
  have red: "reduce Q P R pivot val = Inr (?Q0, ?P0, ?R0)"
    by (rule reduce_ok [OF sq lp p])
  have len: "length ?PT = length (scale (2 * val) ?QZ)"
    using lp lq p by (simp add: length_delete_at length_scale)
  have lin: "dot ?P0 y = dot ?PT y + 2 * val * dot ?QZ y"
    using len by (simp add: dot_commute [of _ y] dot_add_right dot_scale_right)
  have pin: "dot P (insert_at pivot val y) = P ! pivot * val + dot ?PT y"
    using lp py ny by (simp add: dot_insert)
  have "objective Q P R (insert_at pivot val y)
      = val * val * (Q ! pivot ! pivot) + 2 * val * dot ?QZ y + quad ?Q0 y
        + (P ! pivot * val + dot ?PT y) + R"
    unfolding objective_def using quad_insert [OF sq sy p ly, of val] pin by simp
  also have "\<dots> = objective ?Q0 ?P0 ?R0 y"
    unfolding objective_def using lin v by (auto simp: algebra_simps)
  finally have "objective ?Q0 ?P0 ?R0 y = objective Q P R (insert_at pivot val y)" by simp
  with red show ?thesis by (simp add: map_delete_at)
qed

theorem reduction_correct_witness:
  "square 2 [[1, 2], [2, 3]] \<and> symmetric [[1, 2], [2, 3]] \<and> length [4, 5 :: real] = 2
   \<and> (0::nat) < 2 \<and> length [1 :: real] = 2 - 1
   \<and> reduce [[1, 2], [2, 3]] [4, 5] 6 0 1 = Inr ([[3]], [9], 11)
   \<and> objective [[3]] [9] 11 [1] = 23
   \<and> objective [[1, 2], [2, 3]] [4, 5] 6 (insert_at 0 1 [1]) = 23"
proof -
  have sq: "square 2 [[1, 2], [2, 3]]" by (simp add: square_def)
  have sy: "symmetric [[1, 2], [2, 3]]" by (simp add: symmetric_def upt_rec)
  have lp: "length [4, 5 :: real] = 2" by simp
  have p: "(0::nat) < 2" by simp
  have v: "(1::real) = 0 \<or> (1::real) = 1" by simp
  have ly: "length [1 :: real] = 2 - 1" by simp
  from reduction_correct [OF sq sy lp p v ly, of 6]
  have "reduce [[1, 2], [2, 3]] [4, 5] 6 0 1 = Inr ([[3]], [9], 11)
      \<and> objective [[3]] [9] 11 [1] = objective [[1, 2], [2, 3]] [4, 5] 6 (insert_at 0 1 [1])"
    by (simp add: delete_at_def scale_def)
  moreover have "objective [[3]] [9] 11 [1] = 23"
    by (simp add: objective_def quad_def dot_def)
  ultimately show ?thesis using sq sy by simp
qed

section \<open>Rounding to binary64\<close>

text \<open>
  \<open>expo\<close> is the binary exponent, \<open>round64\<close> is monotone, it leaves every
  \<open>m \<cdot> 2 powi k\<close> with \<open>\<bar>m\<bar> < 2 ^ 53\<close> and \<open>k \<ge> -1074\<close> as it is, and it moves a number by at
  most half a unit in the last place: \<open>2 powi (-53)\<close> times its magnitude, or
  \<open>2 powi (-1075)\<close> in the subnormal range.
\<close>

lemma pow_nat_real_le: "2 ^ k \<le> (n::nat) \<Longrightarrow> (2::real) ^ k \<le> real n"
  by (metis of_nat_le_iff of_nat_numeral of_nat_power)

lemma pow_nat_real_less: "(n::nat) < 2 ^ k \<Longrightarrow> real n + 1 \<le> 2 ^ k"
proof -
  assume "n < 2 ^ k"
  then have "n + 1 \<le> 2 ^ k" by simp
  then have "real (n + 1) \<le> real (2 ^ k)" by (rule of_nat_mono)
  then show ?thesis by simp
qed

lemma expo_bounds:
  assumes "0 < x"
  shows "2 powi expo x \<le> x \<and> x < 2 powi (expo x + 1)"
proof (cases "1 \<le> x")
  case True
  define n where "n = nat \<lfloor>x\<rfloor>"
  define f where "f = floorlog 2 n"
  have n: "0 < n" using True by (simp add: n_def)
  have nx: "real n \<le> x" "x < real n + 1" using True by (simp_all add: n_def)
  from floorlog_bounds [of n 2] n have b: "2 ^ (f - 1) \<le> n" "n < 2 ^ f" by (simp_all add: f_def)
  have f1: "1 \<le> f" using n by (simp add: f_def floorlog_def)
  have e: "expo x = int f - 1" using True by (simp add: expo_def f_def n_def)
  have p1: "(2::real) powi (int f - 1) = 2 ^ (f - 1)"
    using f1 by (simp add: power_int_def nat_diff_distrib')
  have p2: "(2::real) powi (int f - 1 + 1) = 2 ^ f" by (simp add: power_int_def)
  have A: "(2::real) ^ (f - 1) \<le> x" using pow_nat_real_le [OF b(1)] nx(1) by linarith
  have B: "x < (2::real) ^ f" using pow_nat_real_less [OF b(2)] nx(2) by linarith
  show ?thesis unfolding e p1 p2 using A B by blast
next
  case False
  define y where "y = 1 / x"
  define n where "n = nat (\<lceil>y\<rceil> - 1)"
  define f where "f = floorlog 2 n"
  have y: "1 < y" using False assms by (simp add: y_def)
  then have c: "2 \<le> \<lceil>y\<rceil>" by linarith
  have n: "0 < n" using c by (simp add: n_def)
  have rn: "real n = of_int \<lceil>y\<rceil> - 1" using c by (simp add: n_def)
  have ny: "real n < y" "y \<le> real n + 1" unfolding rn by linarith+
  from floorlog_bounds [of n 2] n have b: "2 ^ (f - 1) \<le> n" "n < 2 ^ f" by (simp_all add: f_def)
  have f1: "1 \<le> f" using n by (simp add: f_def floorlog_def)
  have e: "expo x = - int f" using False by (simp add: expo_def f_def n_def y_def)
  have up: "y \<le> 2 ^ f" using pow_nat_real_less [OF b(2)] ny(2) by linarith
  have lo: "(2::real) ^ (f - 1) < y" using pow_nat_real_le [OF b(1)] ny(1) by linarith
  have x: "x = 1 / y" using assms by (simp add: y_def)
  have p1: "(2::real) powi (- int f) = 1 / 2 ^ f" by (simp add: power_int_def field_simps)
  have p2: "(2::real) powi (- int f + 1) = 1 / 2 ^ (f - 1)"
    using f1 by (cases f) (simp_all add: power_int_def field_simps nat_diff_distrib')
  have A: "1 / 2 ^ f \<le> x" unfolding x using up y by (simp add: field_simps)
  have B: "x < 1 / 2 ^ (f - 1)" unfolding x using lo y by (simp add: field_simps)
  show ?thesis unfolding e p1 p2 using A B by blast
qed


lemma round_even_of_int: "round_even (of_int n) = n"
  by (simp add: round_even_def Let_def)


lemma round_even_error: "\<bar>of_int (round_even x) - x\<bar> \<le> 1 / 2"
proof -
  define f where "f = \<lfloor>x\<rfloor>"
  have "of_int f \<le> x" "x < of_int f + 1" unfolding f_def by linarith+
  then show ?thesis unfolding round_even_def Let_def f_def [symmetric]
    by (auto simp: abs_if)
qed


lemma on_grid_point:
  assumes "g \<le> k"
  shows "on_grid g (of_int m * 2 powi k) = of_int m * 2 powi k"
proof -
  have k: "(2::real) powi k = 2 powi g * 2 ^ nat (k - g)"
  proof -
    have "(2::real) powi k = 2 powi (g + (k - g))" by simp
    also have "\<dots> = 2 powi g * 2 powi (k - g)" by (rule power_int_add) simp
    also have "(2::real) powi (k - g) = 2 ^ nat (k - g)" using assms by (simp add: power_int_def)
    finally show ?thesis .
  qed
  have pos: "(2::real) powi g \<noteq> 0" by simp
  have "of_int m * 2 powi k / 2 powi g = (of_int (m * 2 ^ nat (k - g)) :: real)"
    unfolding k using pos by simp
  then have "round_even (of_int m * 2 powi k / 2 powi g) = m * 2 ^ nat (k - g)"
    by (simp only: round_even_of_int)
  then show ?thesis unfolding on_grid_def by (simp add: k)
qed

lemma on_grid_error: "\<bar>on_grid g x - x\<bar> \<le> 2 powi (g - 1)"
proof -
  have pos: "(0::real) < 2 powi g" by (simp add: zero_less_power_int)
  have "on_grid g x - x = 2 powi g * (of_int (round_even (x / 2 powi g)) - x / 2 powi g)"
    unfolding on_grid_def using pos by (simp add: algebra_simps)
  then have "\<bar>on_grid g x - x\<bar> = 2 powi g * \<bar>of_int (round_even (x / 2 powi g)) - x / 2 powi g\<bar>"
    using pos by (simp add: abs_mult)
  also have "\<dots> \<le> 2 powi g * (1 / 2)"
    using pos round_even_error [of "x / 2 powi g"] by (intro mult_left_mono) simp_all
  also have "\<dots> = 2 powi (g - 1)" by (simp add: power_int_diff)
  finally show ?thesis .
qed


lemma expo_unique:
  assumes "2 powi e \<le> x" and "x < 2 powi (e + 1)"
  shows "expo x = e"
proof -
  have x: "0 < x" using assms(1) zero_less_power_int [of "2::real" e] by linarith
  note b = expo_bounds [OF x]
  have "\<not> e + 1 \<le> expo x"
  proof
    assume "e + 1 \<le> expo x"
    then have "(2::real) powi (e + 1) \<le> 2 powi expo x" by (intro power_int_increasing) simp_all
    with b assms show False by linarith
  qed
  moreover have "\<not> expo x + 1 \<le> e"
  proof
    assume "expo x + 1 \<le> e"
    then have "(2::real) powi (expo x + 1) \<le> 2 powi e" by (intro power_int_increasing) simp_all
    with b assms show False by linarith
  qed
  ultimately show ?thesis by simp
qed







lemma round_pos_error:
  assumes "0 < x"
  shows "\<bar>round_pos x - x\<bar> \<le> x / 2 ^ 53 + 2 powi (- 1075)"
proof -
  have err: "\<bar>round_pos x - x\<bar> \<le> 2 powi (ulp_exp x - 1)"
    unfolding round_pos_def by (rule on_grid_error)
  show ?thesis
  proof (cases "- 1022 \<le> expo x")
    case True
    then have g: "ulp_exp x - 1 = expo x - 53" by (simp add: ulp_exp_def)
    have "(2::real) powi (ulp_exp x - 1) = 2 powi (expo x - 53)" by (simp only: g)
    also have "\<dots> = 2 powi expo x / 2 powi 53" by (rule power_int_diff) simp
    also have "\<dots> = 2 powi expo x / 2 ^ 53" by simp
    also have "\<dots> \<le> x / 2 ^ 53" using expo_bounds [OF assms] by (intro divide_right_mono) simp_all
    finally have "(2::real) powi (ulp_exp x - 1) \<le> x / 2 ^ 53" .
    moreover have "(0::real) \<le> 2 powi (- 1075)" by simp
    ultimately show ?thesis using err by linarith
  next
    case False
    then have g: "ulp_exp x - 1 = - 1075" by (simp add: ulp_exp_def)
    have "\<bar>round_pos x - x\<bar> \<le> 2 powi (- 1075)" using err by (simp only: g)
    moreover have "0 \<le> x / 2 ^ 53" using assms by simp
    ultimately show ?thesis by linarith
  qed
qed

lemma round64_error: "\<bar>round64 x - x\<bar> \<le> \<bar>x\<bar> / 2 ^ 53 + 2 powi (- 1075)"
proof -
  consider "x = 0" | "0 < x" | "x < 0" by linarith
  then show ?thesis
  proof cases
    case 1
    then show ?thesis by (simp add: round64_def)
  next
    case 2
    then show ?thesis using round_pos_error [OF 2] by (simp add: round64_def)
  next
    case 3
    then have "0 < - x" by simp
    from round_pos_error [OF this] show ?thesis using 3 by (simp add: round64_def)
  qed
qed

lemma round_pos_eval:
  assumes "2 powi e \<le> x" and "x < 2 powi (e + 1)" and "- 1022 \<le> e"
  shows "round_pos x = on_grid (e - 52) x"
  using expo_unique [OF assms(1,2)] assms(3) by (simp add: round_pos_def ulp_exp_def)

lemma round64_dyadic:
  assumes m: "\<bar>m\<bar> < 2 ^ 53" and k: "- 1074 \<le> k"
  shows "round64 (of_int m * 2 powi k) = of_int m * 2 powi k"
proof -
  have pos: "round_pos (of_int n * 2 powi k) = of_int n * 2 powi k"
    if n: "0 < n" "n < 2 ^ 53" for n :: int
  proof -
    let ?x = "of_int n * 2 powi k :: real"
    have x: "0 < ?x" using n by (simp add: zero_less_power_int)
    have "ulp_exp ?x \<le> k"
    proof (cases "- 1022 \<le> expo ?x")
      case True
      have "2 powi expo ?x \<le> ?x" using expo_bounds [OF x] by simp
      also have "?x < 2 ^ 53 * 2 powi k"
      proof -
        have "(of_int n :: real) < of_int (2 ^ 53)" using n(2) by (simp only: of_int_less_iff)
        then show ?thesis by (simp add: zero_less_power_int)
      qed
      also have "\<dots> = 2 powi (53 + k)" by (simp add: power_int_add)
      finally have "(2::real) powi expo ?x < 2 powi (53 + k)" .
      then have "expo ?x < 53 + k"
        by (metis not_le one_le_numeral power_int_increasing)
      then show ?thesis using True by (simp add: ulp_exp_def)
    next
      case False
      then show ?thesis using k by (simp add: ulp_exp_def)
    qed
    then show ?thesis unfolding round_pos_def by (rule on_grid_point)
  qed
  consider "m = 0" | "0 < m" | "m < 0" by linarith
  then show ?thesis
  proof cases
    case 1
    then show ?thesis by (simp add: round64_def)
  next
    case 2
    then have "0 < (of_int m * 2 powi k :: real)" by (simp add: zero_less_power_int)
    then show ?thesis using pos [of m] 2 m by (simp add: round64_def)
  next
    case 3
    then have neg: "(of_int m * 2 powi k :: real) < 0"
      by (simp add: zero_less_power_int mult_neg_pos)
    have "round_pos (of_int (- m) * 2 powi k) = of_int (- m) * 2 powi k"
      using 3 m by (intro pos) simp_all
    then show ?thesis using neg by (simp add: round64_def)
  qed
qed

lemma round64_of_int: "\<bar>m\<bar> < 2 ^ 53 \<Longrightarrow> round64 (of_int m) = of_int m"
  using round64_dyadic [of m 0] by simp

lemma round64_0: "round64 0 = 0"
  by (simp add: round64_def)

lemma round64_1: "round64 1 = 1"
  using round64_of_int [of 1] by simp

lemma round64_neg_1: "round64 (- 1) = - 1"
  using round64_of_int [of "- 1"] by simp

lemma round64_2: "round64 2 = 2"
  using round64_of_int [of 2] by simp

lemma round64_neg_2: "round64 (- 2) = - 2"
  using round64_of_int [of "- 2"] by simp

lemma round64_neg_half: "round64 (- (1 / 2)) = - (1 / 2)"
  using round64_dyadic [of "- 1" "- 1"] by simp

lemma round64_three_halves: "round64 (3 / 2) = 3 / 2"
  using round64_dyadic [of 3 "- 1"] by simp

lemma round64_1e16: "round64 10000000000000000 = 10000000000000000"
  using round64_dyadic [of 5000000000000000 1] by simp

lemma round64_below_1e16: "round64 9999999999999998 = 9999999999999998"
  using round64_dyadic [of 4999999999999999 1] by simp

lemma round64_difference: "round64 (19999999999999997 / 2) = 9999999999999998"
proof -
  have "round_pos (19999999999999997 / 2) = on_grid (53 - 52) (19999999999999997 / 2)"
    by (rule round_pos_eval) simp_all
  then show ?thesis by (simp add: round64_def on_grid_def round_even_def Let_def)
qed

lemmas round64_values = round64_0 round64_1 round64_neg_1 round64_2 round64_neg_2
  round64_neg_half round64_three_halves round64_1e16 round64_below_1e16 round64_difference

section \<open>The iteration: terminal nodes and expansion\<close>

lemma iteration_pop:
  "active s = nd # rest \<Longrightarrow>
   iteration c orc s =
     (let s1 = s\<lparr>active := rest, lb := n_obj nd\<rparr> in
       if optimality_proved c s1 then Inr (Returned (s1\<lparr>active := []\<rparr>))
       else if length (n_P nd) \<le> 1 then Inr (Continued s1)
       else
         bindE (np_index (n_idxmap nd) (n_pivot nd)) (\<lambda>pidx.
         bindE (forE [0, 1] (branch orc nd pidx) s1) (\<lambda>s2.
         Inr (Continued s2))))"
  by (simp add: iteration_def heappop_def bindE_def)

lemma length_heappush: "length (heappush h x) = Suc (length h)"
  by (induction h) simp_all

lemma set_heappush: "set (heappush h x) = insert x (set h)"
  by (induction h) auto


lemma branch_cases:
  assumes "branch orc nd pidx val s = Inr s'"
  obtains Q0 P0 R0 curr0 idxmap0 obj0 pivot0 os' where
    "child_data nd pidx val = Inr (Q0, P0, R0, curr0, idxmap0)"
    "orc (ost s) Q0 P0 R0 curr0 idxmap0 = Inr ((obj0, pivot0), os')"
    "s' = s\<lparr>ost := os', active := heappush (active s)
               \<lparr>n_obj = obj0, n_seq = relSolved os', n_Q = Q0, n_P = P0, n_R = R0,
                n_curr = curr0, n_idxmap = idxmap0, n_pivot = pivot0\<rparr>\<rparr>"
  using assms unfolding branch_def by (auto simp: bindE_Inr)

lemmas run_defs = iteration_def heappop_def bindE_def optimality_proved_def np_index_def
  branch_def child_data_def np_delete_def np_setitem_def reduce_def np_delete_axis1_def
  np_column_def np_add_def np_index2_def scale_def delete_at_def solveRelaxation_def
  scatter_def round01_def closest_half_def objective_def quad_def dot_def node_lt_def
  round64_values

lemmas example_defs = example_state_def example_state2_def example_root_def
  example_left_def example_right_def example_oracle_def example_solver_def

lemma example_first_iteration:
  "iteration GapTolerance example_oracle example_state = Inr (Continued example_state2)"
  by (simp add: run_defs example_defs)

text \<open>
  Claim C6 (terminal-node guard). When the popped node has reduced dimension at most 1,
  the iteration ends in the state left by the pop: the queue is the rest of the queue
  (no child is pushed) and the oracle's part of the state is untouched (no oracle call),
  or, when the termination check fires first, the queue is cleared. No exception is
  raised whatever the node's pivot is, and the outcome is the same for every oracle,
  every pivot and every index map: \<^verbatim>\<open>idxmap[pivot]\<close> is read only for nodes of reduced
  dimension at least 2.
\<close>

theorem terminal_node_guard:
  assumes act: "active s = nd # rest" and leaf: "length (n_P nd) \<le> 1"
  shows "iteration c orc s =
      (if optimality_proved c (s\<lparr>active := rest, lb := n_obj nd\<rparr>)
       then Inr (Returned (s\<lparr>active := [], lb := n_obj nd\<rparr>))
       else Inr (Continued (s\<lparr>active := rest, lb := n_obj nd\<rparr>)))
    \<and> iteration c orc' (s\<lparr>active := nd\<lparr>n_pivot := pv, n_idxmap := im\<rparr> # rest\<rparr>)
        = iteration c orc s"
proof -
  have 1: "iteration c orc s =
      (if optimality_proved c (s\<lparr>active := rest, lb := n_obj nd\<rparr>)
       then Inr (Returned (s\<lparr>active := [], lb := n_obj nd\<rparr>))
       else Inr (Continued (s\<lparr>active := rest, lb := n_obj nd\<rparr>)))"
    using leaf by (simp add: iteration_pop [OF act] Let_def)
  let ?s = "s\<lparr>active := nd\<lparr>n_pivot := pv, n_idxmap := im\<rparr> # rest\<rparr>"
  have act': "active ?s = nd\<lparr>n_pivot := pv, n_idxmap := im\<rparr> # rest" by simp
  have 2: "iteration c orc' ?s =
      (if optimality_proved c (s\<lparr>active := rest, lb := n_obj nd\<rparr>)
       then Inr (Returned (s\<lparr>active := [], lb := n_obj nd\<rparr>))
       else Inr (Continued (s\<lparr>active := rest, lb := n_obj nd\<rparr>)))"
    using leaf by (simp add: iteration_pop [OF act'] Let_def)
  from 1 2 show ?thesis by simp
qed

theorem terminal_node_guard_witness:
  "active example_state2 = example_left # [example_right]
   \<and> length (n_P example_left) \<le> 1
   \<and> iteration GapTolerance example_oracle example_state2
       = Inr (Continued (example_state2\<lparr>active := [example_right], lb := - 1 / 2\<rparr>))
   \<and> iteration GapTolerance (\<lambda>os Q P R cur im. Inl SolverError)
        (example_state2\<lparr>active := [example_left\<lparr>n_pivot := 7, n_idxmap := []\<rparr>, example_right]\<rparr>)
       = iteration GapTolerance example_oracle example_state2"
proof -
  have act: "active example_state2 = example_left # [example_right]"
    by (simp add: example_defs)
  have leaf: "length (n_P example_left) \<le> 1" by (simp add: example_defs)
  have chk: "\<not> optimality_proved GapTolerance
      (example_state2\<lparr>active := [example_right], lb := n_obj example_left\<rparr>)"
    by (simp add: optimality_proved_def round64_values example_defs)
  have obj: "n_obj example_left = - 1 / 2" by (simp add: example_defs)
  from terminal_node_guard [OF act leaf, where c = GapTolerance and orc = example_oracle
      and orc' = "\<lambda>os Q P R cur im. Inl SolverError" and pv = 7 and im = "[]"] chk
  show ?thesis using act leaf by (simp add: obj)
qed

lemma child_data_ok:
  assumes inv: "node_inv n nd" and cur: "length (n_curr nd) = n"
    and pv: "n_pivot nd < length (n_P nd)"
  shows "np_index (n_idxmap nd) (n_pivot nd) = Inr (n_idxmap nd ! n_pivot nd)"
    and "child_data nd (n_idxmap nd ! n_pivot nd) val =
      Inr (map (delete_at (n_pivot nd)) (delete_at (n_pivot nd) (n_Q nd)),
           map2 (+) (delete_at (n_pivot nd) (n_P nd))
             (scale (2 * val) (map (\<lambda>row. row ! n_pivot nd) (delete_at (n_pivot nd) (n_Q nd)))),
           val * (n_Q nd ! n_pivot nd ! n_pivot nd) + val * (n_P nd ! n_pivot nd) + n_R nd,
           (n_curr nd)[n_idxmap nd ! n_pivot nd := val],
           delete_at (n_pivot nd) (n_idxmap nd))"
proof -
  let ?p = "n_pivot nd"
  have sq: "square (length (n_P nd)) (n_Q nd)" and li: "length (n_idxmap nd) = length (n_P nd)"
    and bd: "list_all (\<lambda>i. i < n) (n_idxmap nd)"
    using inv by (simp_all add: node_inv_def)
  have pi: "?p < length (n_idxmap nd)" using pv li by simp
  then have "n_idxmap nd ! ?p \<in> set (n_idxmap nd)" by simp
  then have pc: "n_idxmap nd ! ?p < length (n_curr nd)"
    using bd cur by (simp add: list_all_iff)
  show "np_index (n_idxmap nd) ?p = Inr (n_idxmap nd ! ?p)"
    using pi by (simp add: np_index_def)
  show "child_data nd (n_idxmap nd ! n_pivot nd) val =
      Inr (map (delete_at (n_pivot nd)) (delete_at (n_pivot nd) (n_Q nd)),
           map2 (+) (delete_at (n_pivot nd) (n_P nd))
             (scale (2 * val) (map (\<lambda>row. row ! n_pivot nd) (delete_at (n_pivot nd) (n_Q nd)))),
           val * (n_Q nd ! n_pivot nd ! n_pivot nd) + val * (n_P nd ! n_pivot nd) + n_R nd,
           (n_curr nd)[n_idxmap nd ! n_pivot nd := val],
           delete_at (n_pivot nd) (n_idxmap nd))"
    using pi pc
    by (simp add: child_data_def np_delete_def np_setitem_def bindE_def
        reduce_ok [OF sq refl pv])
qed

lemma branch_ok:
  assumes "child_data nd pidx val = Inr (Q0, P0, R0, curr0, idxmap0)"
    and "orc (ost s) Q0 P0 R0 curr0 idxmap0 = Inr ((obj0, pivot0), os')"
  shows "branch orc nd pidx val s =
     Inr (s\<lparr>ost := os', active := heappush (active s)
               \<lparr>n_obj = obj0, n_seq = relSolved os', n_Q = Q0, n_P = P0, n_R = R0,
                n_curr = curr0, n_idxmap = idxmap0, n_pivot = pivot0\<rparr>\<rparr>)"
  using assms by (simp add: branch_def bindE_def)

text \<open>
  Claim C7 (expansion cardinality and oracle boundary). A popped node that passes the
  termination check and has reduced dimension at least 2 is expanded: for a node that
  satisfies the invariant of the queue, with an assignment of the problem's length and a
  pivot inside its reduced problem, the index lookup and the construction of the child
  for value 0 and of the child for value 1 of the branch variable succeed. The oracle is
  called once on each child's reduced data, the second call starting from the oracle
  state the first one left; when both calls return, the iteration raises no exception
  and pushes each child, with the objective and pivot its call returned and the counter
  the call left as sequence number, right after its call: the queue grows from the rest
  of the queue by exactly these two nodes. The counter advances with each call and no
  queued node carries a later number than the counter, so that each push is \<open>fresh\<close>:
  the comparison of the tuples is decided by objective and sequence number and never
  reaches the arrays.
\<close>

theorem expansion_two_children:
  assumes act: "active s = nd # rest"
    and pass: "\<not> optimality_proved c (s\<lparr>active := rest, lb := n_obj nd\<rparr>)"
    and big: "2 \<le> length (n_P nd)"
    and inv: "node_inv n nd" and cur: "length (n_curr nd) = n"
    and pv: "n_pivot nd < length (n_P nd)"
    and old: "\<forall>x\<in>set rest. n_seq x \<le> relSolved (ost s)"
  shows "\<exists>pidx Q0 P0 R0 curr0 idxmap0 Q1 P1 R1 curr1 idxmap1.
      np_index (n_idxmap nd) (n_pivot nd) = Inr pidx
    \<and> child_data nd pidx 0 = Inr (Q0, P0, R0, curr0, idxmap0)
    \<and> child_data nd pidx 1 = Inr (Q1, P1, R1, curr1, idxmap1)
    \<and> (\<forall>obj0 pivot0 os0 obj1 pivot1 os1.
         orc (ost s) Q0 P0 R0 curr0 idxmap0 = Inr ((obj0, pivot0), os0)
         \<and> orc os0 Q1 P1 R1 curr1 idxmap1 = Inr ((obj1, pivot1), os1)
         \<and> relSolved (ost s) < relSolved os0 \<and> relSolved os0 < relSolved os1
         \<longrightarrow>
           fresh rest
             \<lparr>n_obj = obj0, n_seq = relSolved os0, n_Q = Q0, n_P = P0, n_R = R0,
              n_curr = curr0, n_idxmap = idxmap0, n_pivot = pivot0\<rparr>
         \<and> fresh (heappush rest
               \<lparr>n_obj = obj0, n_seq = relSolved os0, n_Q = Q0, n_P = P0, n_R = R0,
                n_curr = curr0, n_idxmap = idxmap0, n_pivot = pivot0\<rparr>)
             \<lparr>n_obj = obj1, n_seq = relSolved os1, n_Q = Q1, n_P = P1, n_R = R1,
              n_curr = curr1, n_idxmap = idxmap1, n_pivot = pivot1\<rparr>
         \<and> iteration c orc s = Inr (Continued (s\<lparr>lb := n_obj nd, ost := os1,
             active := heappush (heappush rest
               \<lparr>n_obj = obj0, n_seq = relSolved os0, n_Q = Q0, n_P = P0, n_R = R0,
                n_curr = curr0, n_idxmap = idxmap0, n_pivot = pivot0\<rparr>)
               \<lparr>n_obj = obj1, n_seq = relSolved os1, n_Q = Q1, n_P = P1, n_R = R1,
                n_curr = curr1, n_idxmap = idxmap1, n_pivot = pivot1\<rparr>\<rparr>))
         \<and> length (heappush (heappush rest
               \<lparr>n_obj = obj0, n_seq = relSolved os0, n_Q = Q0, n_P = P0, n_R = R0,
                n_curr = curr0, n_idxmap = idxmap0, n_pivot = pivot0\<rparr>)
               \<lparr>n_obj = obj1, n_seq = relSolved os1, n_Q = Q1, n_P = P1, n_R = R1,
                n_curr = curr1, n_idxmap = idxmap1, n_pivot = pivot1\<rparr>) = length rest + 2)"
proof -
  let ?s1 = "s\<lparr>active := rest, lb := n_obj nd\<rparr>"
  let ?pidx = "n_idxmap nd ! n_pivot nd"
  note ok = child_data_ok [OF inv cur pv]
  have px: "np_index (n_idxmap nd) (n_pivot nd) = Inr ?pidx" by (rule ok(1))
  obtain Q0 P0 R0 curr0 idxmap0 where
    c0: "child_data nd ?pidx 0 = Inr (Q0, P0, R0, curr0, idxmap0)"
    using ok(2) [of 0] by simp
  obtain Q1 P1 R1 curr1 idxmap1 where
    c1: "child_data nd ?pidx 1 = Inr (Q1, P1, R1, curr1, idxmap1)"
    using ok(2) [of 1] by simp
  have run: "fresh rest
             \<lparr>n_obj = obj0, n_seq = relSolved os0, n_Q = Q0, n_P = P0, n_R = R0,
              n_curr = curr0, n_idxmap = idxmap0, n_pivot = pivot0\<rparr>
         \<and> fresh (heappush rest
               \<lparr>n_obj = obj0, n_seq = relSolved os0, n_Q = Q0, n_P = P0, n_R = R0,
                n_curr = curr0, n_idxmap = idxmap0, n_pivot = pivot0\<rparr>)
             \<lparr>n_obj = obj1, n_seq = relSolved os1, n_Q = Q1, n_P = P1, n_R = R1,
              n_curr = curr1, n_idxmap = idxmap1, n_pivot = pivot1\<rparr>
         \<and> iteration c orc s = Inr (Continued (s\<lparr>lb := n_obj nd, ost := os1,
             active := heappush (heappush rest
               \<lparr>n_obj = obj0, n_seq = relSolved os0, n_Q = Q0, n_P = P0, n_R = R0,
                n_curr = curr0, n_idxmap = idxmap0, n_pivot = pivot0\<rparr>)
               \<lparr>n_obj = obj1, n_seq = relSolved os1, n_Q = Q1, n_P = P1, n_R = R1,
                n_curr = curr1, n_idxmap = idxmap1, n_pivot = pivot1\<rparr>\<rparr>))
         \<and> length (heappush (heappush rest
               \<lparr>n_obj = obj0, n_seq = relSolved os0, n_Q = Q0, n_P = P0, n_R = R0,
                n_curr = curr0, n_idxmap = idxmap0, n_pivot = pivot0\<rparr>)
               \<lparr>n_obj = obj1, n_seq = relSolved os1, n_Q = Q1, n_P = P1, n_R = R1,
                n_curr = curr1, n_idxmap = idxmap1, n_pivot = pivot1\<rparr>) = length rest + 2"
    if h: "orc (ost s) Q0 P0 R0 curr0 idxmap0 = Inr ((obj0, pivot0), os0)
         \<and> orc os0 Q1 P1 R1 curr1 idxmap1 = Inr ((obj1, pivot1), os1)
         \<and> relSolved (ost s) < relSolved os0 \<and> relSolved os0 < relSolved os1"
    for obj0 pivot0 os0 obj1 pivot1 os1
  proof -
    let ?n0 = "\<lparr>n_obj = obj0, n_seq = relSolved os0, n_Q = Q0, n_P = P0, n_R = R0,
                n_curr = curr0, n_idxmap = idxmap0, n_pivot = pivot0\<rparr>"
    let ?n1 = "\<lparr>n_obj = obj1, n_seq = relSolved os1, n_Q = Q1, n_P = P1, n_R = R1,
                n_curr = curr1, n_idxmap = idxmap1, n_pivot = pivot1\<rparr>"
    let ?s2 = "?s1\<lparr>ost := os0, active := heappush (active ?s1) ?n0\<rparr>"
    from h have o0: "orc (ost ?s1) Q0 P0 R0 curr0 idxmap0 = Inr ((obj0, pivot0), os0)"
      and o1: "orc (ost ?s2) Q1 P1 R1 curr1 idxmap1 = Inr ((obj1, pivot1), os1)"
      and lt0: "relSolved (ost s) < relSolved os0" and lt1: "relSolved os0 < relSolved os1"
      by simp_all
    have b0: "branch orc nd ?pidx 0 ?s1 = Inr ?s2"
      by (rule branch_ok [where orc = orc and s = "?s1", OF c0 o0])
    have b1: "branch orc nd ?pidx 1 ?s2
        = Inr (?s2\<lparr>ost := os1, active := heappush (active ?s2) ?n1\<rparr>)"
      by (rule branch_ok [where orc = orc and s = "?s2", OF c1 o1])
    have it: "iteration c orc s = Inr (Continued (s\<lparr>lb := n_obj nd, ost := os1,
        active := heappush (heappush rest ?n0) ?n1\<rparr>))"
    proof -
      have fe: "forE [0, 1] (branch orc nd ?pidx) ?s1
          = Inr (?s2\<lparr>ost := os1, active := heappush (active ?s2) ?n1\<rparr>)"
        by (simp only: forE.simps bindE_def b0 b1 sum.case)
      show ?thesis
        unfolding iteration_pop [OF act] using pass big
        by (simp add: Let_def px bindE_def fe del: forE.simps)
    qed
    have f0: "fresh rest ?n0" using old lt0 by (fastforce simp: fresh_def key_def)
    have f1: "fresh (heappush rest ?n0) ?n1"
      using old lt0 lt1 by (fastforce simp: fresh_def key_def set_heappush)
    have len: "length (heappush (heappush rest ?n0) ?n1) = length rest + 2"
      by (simp add: length_heappush)
    from f0 f1 it len show ?thesis by (intro conjI)
  qed
  show ?thesis
    apply (intro exI)
    apply (rule conjI, rule px)
    apply (rule conjI, rule c0)
    apply (rule conjI, rule c1)
    apply (intro allI impI)
    apply (rule run, assumption)
    done
qed

theorem expansion_two_children_witness:
  "active example_state = example_root # []
   \<and> \<not> optimality_proved GapTolerance (example_state\<lparr>active := [], lb := n_obj example_root\<rparr>)
   \<and> 2 \<le> length (n_P example_root)
   \<and> node_inv 2 example_root \<and> length (n_curr example_root) = 2
   \<and> n_pivot example_root < length (n_P example_root)
   \<and> child_data example_root 0 0 = Inr ([[0]], [1], 0, [0, 0], [1])
   \<and> child_data example_root 0 1 = Inr ([[0]], [1], 1, [1, 0], [1])
   \<and> fresh [] example_left \<and> fresh [example_left] example_right
   \<and> iteration GapTolerance example_oracle example_state = Inr (Continued example_state2)
   \<and> length (active example_state2) = length ([] :: node list) + 2"
proof -
  have act: "active example_state = example_root # []" by (simp add: example_defs)
  have pass: "\<not> optimality_proved GapTolerance
      (example_state\<lparr>active := [], lb := n_obj example_root\<rparr>)"
    by (simp add: optimality_proved_def round64_values example_defs)
  have big: "2 \<le> length (n_P example_root)" by (simp add: example_defs)
  have inv: "node_inv 2 example_root" by (simp add: node_inv_def square_def example_defs)
  have cur: "length (n_curr example_root) = 2" by (simp add: example_defs)
  have pv: "n_pivot example_root < length (n_P example_root)" by (simp add: example_defs)
  have old: "\<forall>x\<in>set []. n_seq x \<le> relSolved (ost example_state)" by simp
  have px: "np_index (n_idxmap example_root) (n_pivot example_root) = Inr 0"
    by (simp add: run_defs example_defs)
  have c0: "child_data example_root 0 0 = Inr ([[0]], [1], 0, [0, 0], [1])"
    by (simp add: run_defs example_defs)
  have c1: "child_data example_root 0 1 = Inr ([[0]], [1], 1, [1, 0], [1])"
    by (simp add: run_defs example_defs)
  have o0: "example_oracle (ost example_state) [[0]] [1] 0 [0, 0] [1]
      = Inr ((- 1 / 2, 0), \<lparr>ub = 0, relSolved = 2, incumbent = [0, 0]\<rparr>)"
    by (simp add: run_defs example_defs)
  have o1: "example_oracle \<lparr>ub = 0, relSolved = 2, incumbent = [0, 0]\<rparr> [[0]] [1] 1 [1, 0] [1]
      = Inr ((1, 0), \<lparr>ub = 0, relSolved = 3, incumbent = [0, 0]\<rparr>)"
    by (simp add: run_defs example_defs)
  from expansion_two_children [OF act pass big inv cur pv old, of example_oracle]
  obtain pidx Q0 P0 R0 curr0 idxmap0 Q1 P1 R1 curr1 idxmap1 where
    px': "np_index (n_idxmap example_root) (n_pivot example_root) = Inr pidx"
    and c0': "child_data example_root pidx 0 = Inr (Q0, P0, R0, curr0, idxmap0)"
    and c1': "child_data example_root pidx 1 = Inr (Q1, P1, R1, curr1, idxmap1)"
    and run: "\<And>obj0 pivot0 os0 obj1 pivot1 os1.
         example_oracle (ost example_state) Q0 P0 R0 curr0 idxmap0 = Inr ((obj0, pivot0), os0)
         \<and> example_oracle os0 Q1 P1 R1 curr1 idxmap1 = Inr ((obj1, pivot1), os1)
         \<and> relSolved (ost example_state) < relSolved os0 \<and> relSolved os0 < relSolved os1
         \<Longrightarrow>
           fresh []
             \<lparr>n_obj = obj0, n_seq = relSolved os0, n_Q = Q0, n_P = P0, n_R = R0,
              n_curr = curr0, n_idxmap = idxmap0, n_pivot = pivot0\<rparr>
         \<and> fresh (heappush []
               \<lparr>n_obj = obj0, n_seq = relSolved os0, n_Q = Q0, n_P = P0, n_R = R0,
                n_curr = curr0, n_idxmap = idxmap0, n_pivot = pivot0\<rparr>)
             \<lparr>n_obj = obj1, n_seq = relSolved os1, n_Q = Q1, n_P = P1, n_R = R1,
              n_curr = curr1, n_idxmap = idxmap1, n_pivot = pivot1\<rparr>
         \<and> iteration GapTolerance example_oracle example_state
             = Inr (Continued (example_state\<lparr>lb := n_obj example_root, ost := os1,
             active := heappush (heappush []
               \<lparr>n_obj = obj0, n_seq = relSolved os0, n_Q = Q0, n_P = P0, n_R = R0,
                n_curr = curr0, n_idxmap = idxmap0, n_pivot = pivot0\<rparr>)
               \<lparr>n_obj = obj1, n_seq = relSolved os1, n_Q = Q1, n_P = P1, n_R = R1,
                n_curr = curr1, n_idxmap = idxmap1, n_pivot = pivot1\<rparr>\<rparr>))
         \<and> length (heappush (heappush []
               \<lparr>n_obj = obj0, n_seq = relSolved os0, n_Q = Q0, n_P = P0, n_R = R0,
                n_curr = curr0, n_idxmap = idxmap0, n_pivot = pivot0\<rparr>)
               \<lparr>n_obj = obj1, n_seq = relSolved os1, n_Q = Q1, n_P = P1, n_R = R1,
                n_curr = curr1, n_idxmap = idxmap1, n_pivot = pivot1\<rparr>)
             = length ([] :: node list) + 2"
    by (elim exE conjE) (rule that, assumption+, blast)
  have pidx: "pidx = 0" using px px' by simp
  have d0: "Q0 = [[0]]" "P0 = [1]" "R0 = 0" "curr0 = [0, 0]" "idxmap0 = [1]"
    using c0 c0' by (simp_all add: pidx)
  have d1: "Q1 = [[0]]" "P1 = [1]" "R1 = 1" "curr1 = [1, 0]" "idxmap1 = [1]"
    using c1 c1' by (simp_all add: pidx)
  have h: "example_oracle (ost example_state) Q0 P0 R0 curr0 idxmap0
         = Inr ((- 1 / 2, 0), \<lparr>ub = 0, relSolved = 2, incumbent = [0, 0]\<rparr>)
       \<and> example_oracle \<lparr>ub = 0, relSolved = 2, incumbent = [0, 0]\<rparr> Q1 P1 R1 curr1 idxmap1
         = Inr ((1, 0), \<lparr>ub = 0, relSolved = 3, incumbent = [0, 0]\<rparr>)
       \<and> relSolved (ost example_state) < relSolved \<lparr>ub = 0, relSolved = 2, incumbent = [0, 0]\<rparr>
       \<and> relSolved \<lparr>ub = 0, relSolved = 2, incumbent = [0, 0]\<rparr>
           < relSolved \<lparr>ub = 0, relSolved = 3, incumbent = [0, 0]\<rparr>"
    using o0 o1 by (simp add: d0 d1 example_state_def)
  from run [OF h]
  have "fresh [] example_left \<and> fresh [example_left] example_right
      \<and> iteration GapTolerance example_oracle example_state = Inr (Continued example_state2)
      \<and> length (active example_state2) = length ([] :: node list) + 2"
    by (simp add: d0 d1 node_lt_def example_state_def example_state2_def example_root_def
        example_left_def example_right_def)
  with act pass big inv cur pv c0 c1 show ?thesis by simp
qed

section \<open>The index map invariant\<close>

lemma distinct_delete_at: "distinct xs \<Longrightarrow> distinct (delete_at p xs)"
proof (cases "p < length xs")
  case True
  assume d: "distinct xs"
  have "xs = take p xs @ xs ! p # drop (Suc p) xs" using True by (simp add: id_take_nth_drop)
  then have "distinct (take p xs @ xs ! p # drop (Suc p) xs)" using d by simp
  then show ?thesis unfolding delete_at_def by auto
next
  case False
  assume "distinct xs"
  then show ?thesis using False by (simp add: delete_at_def)
qed

lemma square_reduce:
  assumes sq: "square k Q" and p: "p < k"
  shows "square (k - 1) (map (delete_at p) (delete_at p Q))"
proof -
  have lq: "length Q = k" using sq by (simp add: square_def)
  have rows: "\<And>row. row \<in> set Q \<Longrightarrow> length row = k"
    using sq by (simp add: square_def list_all_iff)
  have "length (delete_at p row) = k - 1" if "row \<in> set (delete_at p Q)" for row
    using rows that set_delete_at [of p Q] p by (auto simp: length_delete_at)
  then show ?thesis using lq p by (simp add: square_def list_all_iff length_delete_at)
qed

lemma child_data_shape:
  assumes inv: "node_inv n nd"
    and cd: "child_data nd pidx val = Inr (Q0, P0, R0, curr0, idxmap0)"
  shows "n_pivot nd < length (n_P nd)"
    and "idxmap0 = delete_at (n_pivot nd) (n_idxmap nd)"
    and "Q0 = map (delete_at (n_pivot nd)) (delete_at (n_pivot nd) (n_Q nd))"
    and "P0 = map2 (+) (delete_at (n_pivot nd) (n_P nd))
             (scale (2 * val) (map (\<lambda>row. row ! n_pivot nd) (delete_at (n_pivot nd) (n_Q nd))))"
    and "length P0 = length (n_P nd) - 1"
proof -
  let ?p = "n_pivot nd" and ?k = "length (n_P nd)"
  from cd obtain r where
    im: "np_delete (n_idxmap nd) ?p = Inr idxmap0"
    and red: "reduce (n_Q nd) (n_P nd) (n_R nd) ?p val = Inr (Q0, P0, R0)"
    unfolding child_data_def by (auto simp: bindE_Inr)
  have sq: "square ?k (n_Q nd)" and li: "length (n_idxmap nd) = ?k"
    using inv by (simp_all add: node_inv_def)
  have p: "?p < ?k" and i0: "idxmap0 = delete_at ?p (n_idxmap nd)"
    using im li by (auto simp: np_delete_def split: if_splits)
  have lq: "length (n_Q nd) = ?k" using sq by (simp add: square_def)
  from red reduce_ok [OF sq refl p, of "n_R nd" val]
  have q0: "Q0 = map (delete_at ?p) (delete_at ?p (n_Q nd))"
    and p0: "P0 = map2 (+) (delete_at ?p (n_P nd))
             (scale (2 * val) (map (\<lambda>row. row ! ?p) (delete_at ?p (n_Q nd))))"
    by simp_all
  have l0: "length P0 = ?k - 1" using p lq by (simp add: p0 length_delete_at length_scale)
  show "?p < ?k" by (rule p)
  show "idxmap0 = delete_at ?p (n_idxmap nd)" by (rule i0)
  show "Q0 = map (delete_at ?p) (delete_at ?p (n_Q nd))" by (rule q0)
  show "P0 = map2 (+) (delete_at ?p (n_P nd))
             (scale (2 * val) (map (\<lambda>row. row ! ?p) (delete_at ?p (n_Q nd))))" by (rule p0)
  show "length P0 = ?k - 1" by (rule l0)
qed

lemma child_data_inv:
  assumes inv: "node_inv n nd"
    and cd: "child_data nd pidx val = Inr (Q0, P0, R0, curr0, idxmap0)"
  shows "node_inv n \<lparr>n_obj = obj0, n_seq = k, n_Q = Q0, n_P = P0, n_R = R0,
                n_curr = curr0, n_idxmap = idxmap0, n_pivot = pivot0\<rparr>"
proof -
  let ?p = "n_pivot nd"
  note sh = child_data_shape [OF inv cd]
  have sq: "square (length (n_P nd)) (n_Q nd)" and li: "length (n_idxmap nd) = length (n_P nd)"
    and di: "distinct (n_idxmap nd)" and bd: "list_all (\<lambda>i. i < n) (n_idxmap nd)"
    using inv by (simp_all add: node_inv_def)
  have p: "?p < length (n_P nd)" by (rule sh(1))
  have q0: "Q0 = map (delete_at ?p) (delete_at ?p (n_Q nd))" by (rule sh(3))
  have lp0: "length P0 = length (n_P nd) - 1" by (rule sh(5))
  have i0: "idxmap0 = delete_at ?p (n_idxmap nd)" by (rule sh(2))
  have 1: "square (length P0) Q0" unfolding q0 lp0 by (rule square_reduce [OF sq p])
  have 2: "length idxmap0 = length P0" unfolding i0 lp0 using li p by (simp add: length_delete_at)
  have 3: "distinct idxmap0" unfolding i0 using di by (rule distinct_delete_at)
  have 4: "list_all (\<lambda>i. i < n) idxmap0"
    unfolding i0 using bd set_delete_at [of ?p "n_idxmap nd"] by (auto simp: list_all_iff)
  from 1 2 3 4 show ?thesis by (simp add: node_inv_def)
qed

lemma list_all_heappush: "list_all Pr (heappush h x) \<longleftrightarrow> Pr x \<and> list_all Pr h"
  by (induction h) auto

lemma branch_inv:
  assumes inv: "node_inv n nd" and q: "list_all (node_inv n) (active s)"
    and b: "branch orc nd pidx val s = Inr s'"
  shows "list_all (node_inv n) (active s')"
proof -
  from b obtain Q0 P0 R0 curr0 idxmap0 obj0 pivot0 os' where
    cd: "child_data nd pidx val = Inr (Q0, P0, R0, curr0, idxmap0)"
    and "orc (ost s) Q0 P0 R0 curr0 idxmap0 = Inr ((obj0, pivot0), os')"
    and s': "s' = s\<lparr>ost := os', active := heappush (active s)
               \<lparr>n_obj = obj0, n_seq = relSolved os', n_Q = Q0, n_P = P0, n_R = R0,
                n_curr = curr0, n_idxmap = idxmap0, n_pivot = pivot0\<rparr>\<rparr>"
    by (rule branch_cases)
  show ?thesis using child_data_inv [OF inv cd] q by (simp add: s' list_all_heappush)
qed

lemma iteration_cases:
  assumes act: "active s = nd # rest" and fin: "iteration c orc s = Inr (Continued s')"
  obtains (leaf) "length (n_P nd) \<le> 1" "s' = s\<lparr>active := rest, lb := n_obj nd\<rparr>"
    | (expand) pidx s2 where "2 \<le> length (n_P nd)"
        "\<not> optimality_proved c (s\<lparr>active := rest, lb := n_obj nd\<rparr>)"
        "np_index (n_idxmap nd) (n_pivot nd) = Inr pidx"
        "branch orc nd pidx 0 (s\<lparr>active := rest, lb := n_obj nd\<rparr>) = Inr s2"
        "branch orc nd pidx 1 s2 = Inr s'"
  using fin unfolding iteration_pop [OF act]
  by (auto simp: Let_def bindE_Inr split: if_splits)

lemma iteration_inv:
  assumes q: "list_all (node_inv n) (active s)" and ne: "active s \<noteq> []"
    and fin: "iteration c orc s = Inr (Continued s')"
  shows "list_all (node_inv n) (active s')"
proof -
  from ne obtain nd rest where act: "active s = nd # rest" by (cases "active s") auto
  have nd: "node_inv n nd" and rest: "list_all (node_inv n) rest" using q act by simp_all
  from act fin show ?thesis
  proof (cases rule: iteration_cases)
    case leaf
    then show ?thesis using rest by simp
  next
    case (expand pidx s2)
    have "list_all (node_inv n) (active (s\<lparr>active := rest, lb := n_obj nd\<rparr>))"
      using rest by simp
    from branch_inv [OF nd this expand(4)] have "list_all (node_inv n) (active s2)" .
    from branch_inv [OF nd this expand(5)] show ?thesis .
  qed
qed

text \<open>
  Claim C8 (index map invariant). If every node of the queue satisfies the node
  invariant for \<open>n\<close> when the loop starts, so does every node of the queue at every
  later iteration: the index map has the length of \<open>P\<close> and the order of \<open>Q\<close>, and its
  entries are pairwise distinct and below \<open>n\<close>. A child built from such a node has the
  parent's index map without the pivot position, the parent's \<open>Q\<close> without the pivot row
  and column, and a \<open>P\<close> one entry shorter.
\<close>

theorem index_map_invariant:
  assumes q: "list_all (node_inv n) (active s)" and r: "reaches c orc s t"
  shows "list_all (node_inv n) (active t)
    \<and> (\<forall>nd pidx val Q0 P0 R0 curr0 idxmap0.
          nd \<in> set (active t) \<and> child_data nd pidx val = Inr (Q0, P0, R0, curr0, idxmap0)
          \<longrightarrow> idxmap0 = delete_at (n_pivot nd) (n_idxmap nd)
            \<and> Q0 = map (delete_at (n_pivot nd)) (delete_at (n_pivot nd) (n_Q nd))
            \<and> length P0 = length (n_P nd) - 1)"
proof -
  from r q have inv: "list_all (node_inv n) (active t)"
  proof (induction rule: reaches.induct)
    case reaches_start
    then show ?case by simp
  next
    case (reaches_step t u)
    then show ?case using iteration_inv by blast
  qed
  then show ?thesis
    using child_data_shape(2,3,5) by (auto simp: list_all_iff)
qed

theorem index_map_invariant_witness:
  "list_all (node_inv 2) (active example_state)
   \<and> reaches GapTolerance example_oracle example_state example_state2
   \<and> list_all (node_inv 2) (active example_state2)"
proof -
  have q: "list_all (node_inv 2) (active example_state)"
    by (simp add: node_inv_def square_def example_defs)
  have ne: "active example_state \<noteq> []" by (simp add: example_defs)
  have r: "reaches GapTolerance example_oracle example_state example_state2"
    by (rule reaches_step [OF reaches_start ne example_first_iteration])
  from index_map_invariant [OF q r] q r show ?thesis by simp
qed

section \<open>The order of the lower bounds\<close>

lemma lb_trace_Nil: "active s = [] \<Longrightarrow> lb_trace c orc s = []"
  by (simp add: lb_trace.simps)

lemma lb_trace_Cons:
  "active s = nd # rest \<Longrightarrow>
   lb_trace c orc s = n_obj nd #
     (case iteration c orc s of Inl e \<Rightarrow> [] | Inr (Returned s') \<Rightarrow> []
      | Inr (Continued s') \<Rightarrow> lb_trace c orc s')"
  by (subst lb_trace.simps) simp

lemma sorted_heappush:
  "sorted (map n_obj h) \<Longrightarrow> sorted (map n_obj (heappush h x))"
proof (induction h)
  case Nil
  then show ?case by simp
next
  case (Cons y ys)
  show ?case
  proof (cases "node_lt x y")
    case True
    then have "n_obj x \<le> n_obj y" by (auto simp: node_lt_def)
    with Cons.prems True show ?thesis by auto
  next
    case False
    then have "n_obj y \<le> n_obj x" by (auto simp: node_lt_def)
    with Cons False show ?thesis by (auto simp: set_heappush)
  qed
qed

lemma symmetric_iff:
  "symmetric Q \<longleftrightarrow> (\<forall>i<length Q. \<forall>j<length Q. Q ! i ! j = Q ! j ! i)"
  by (auto simp: symmetric_def list_all_iff)

lemma nth_reduced:
  assumes sq: "square k Q" and p: "p < k" and i: "i < k - 1" and j: "j < k - 1"
  shows "map (delete_at p) (delete_at p Q) ! i ! j
       = Q ! (if i < p then i else Suc i) ! (if j < p then j else Suc j)"
proof -
  let ?i = "if i < p then i else Suc i"
  have lq: "length Q = k" using sq by (simp add: square_def)
  have lr: "length (Q ! ?i) = k" using sq i by (auto simp: square_def list_all_length)
  have "map (delete_at p) (delete_at p Q) ! i = delete_at p (delete_at p Q ! i)"
    using lq p i by (simp add: length_delete_at)
  also have "delete_at p Q ! i = Q ! ?i" using lq i by (simp add: nth_delete_at)
  also have "delete_at p (Q ! ?i) ! j = Q ! ?i ! (if j < p then j else Suc j)"
    using lr j by (simp add: nth_delete_at)
  finally show ?thesis .
qed

lemma symmetric_reduce:
  assumes sq: "square k Q" and sy: "symmetric Q" and p: "p < k"
  shows "symmetric (map (delete_at p) (delete_at p Q))"
proof -
  have lq: "length Q = k" using sq by (simp add: square_def)
  have l0: "length (map (delete_at p) (delete_at p Q)) = k - 1"
    using lq p by (simp add: length_delete_at)
  show ?thesis
    unfolding symmetric_iff l0
  proof (intro allI impI)
    fix i j assume i: "i < k - 1" and j: "j < k - 1"
    have "Q ! (if i < p then i else Suc i) ! (if j < p then j else Suc j)
        = Q ! (if j < p then j else Suc j) ! (if i < p then i else Suc i)"
      using sy lq i j unfolding symmetric_iff by auto
    then show "map (delete_at p) (delete_at p Q) ! i ! j
        = map (delete_at p) (delete_at p Q) ! j ! i"
      by (simp only: nth_reduced [OF sq p i j] nth_reduced [OF sq p j i])
  qed
qed

lemma child_problem_ok:
  assumes ok: "problem_ok nd"
    and cd: "child_data nd pidx val = Inr (Q0, P0, R0, curr0, idxmap0)"
  shows "problem_ok \<lparr>n_obj = obj0, n_seq = k, n_Q = Q0, n_P = P0, n_R = R0,
                n_curr = curr0, n_idxmap = idxmap0, n_pivot = pivot0\<rparr>"
proof -
  let ?p = "n_pivot nd"
  have sq: "square (length (n_P nd)) (n_Q nd)" and sy: "symmetric (n_Q nd)"
    using ok by (simp_all add: problem_ok_def)
  from cd have red: "reduce (n_Q nd) (n_P nd) (n_R nd) ?p val = Inr (Q0, P0, R0)"
    unfolding child_data_def by (auto simp: bindE_Inr)
  have p: "?p < length (n_P nd)" using reduce_dims [OF red] by simp
  have lq: "length (n_Q nd) = length (n_P nd)" using sq by (simp add: square_def)
  from red reduce_ok [OF sq refl p, of "n_R nd" val]
  have q0: "Q0 = map (delete_at ?p) (delete_at ?p (n_Q nd))"
    and p0: "P0 = map2 (+) (delete_at ?p (n_P nd))
             (scale (2 * val) (map (\<lambda>row. row ! ?p) (delete_at ?p (n_Q nd))))"
    by simp_all
  have l0: "length P0 = length (n_P nd) - 1"
    using p lq by (simp add: p0 length_delete_at length_scale)
  have "square (length P0) Q0" unfolding q0 l0 by (rule square_reduce [OF sq p])
  moreover have "symmetric Q0" unfolding q0 by (rule symmetric_reduce [OF sq sy p])
  ultimately show ?thesis by (simp add: problem_ok_def)
qed

lemma branch_queue_ok:
  assumes rb: "returns_bound bound orc" and mb: "monotone_bound bound"
    and nd: "tied bound nd" and ok: "problem_ok nd" and v: "val = 0 \<or> val = 1"
    and q: "queue_ok bound (active s)"
    and ge: "\<forall>x\<in>set (active s). n_obj nd \<le> n_obj x"
    and b: "branch orc nd pidx val s = Inr s'"
  shows "queue_ok bound (active s') \<and> (\<forall>x\<in>set (active s'). n_obj nd \<le> n_obj x)"
proof -
  from b obtain Q0 P0 R0 curr0 idxmap0 obj0 pivot0 os' where
    cd: "child_data nd pidx val = Inr (Q0, P0, R0, curr0, idxmap0)"
    and o: "orc (ost s) Q0 P0 R0 curr0 idxmap0 = Inr ((obj0, pivot0), os')"
    and s': "s' = s\<lparr>ost := os', active := heappush (active s)
               \<lparr>n_obj = obj0, n_seq = relSolved os', n_Q = Q0, n_P = P0, n_R = R0,
                n_curr = curr0, n_idxmap = idxmap0, n_pivot = pivot0\<rparr>\<rparr>"
    by (rule branch_cases)
  have obj0: "obj0 = bound Q0 P0 R0" using rb o unfolding returns_bound_def by blast
  from cd have red: "reduce (n_Q nd) (n_P nd) (n_R nd) (n_pivot nd) val = Inr (Q0, P0, R0)"
    unfolding child_data_def by (auto simp: bindE_Inr)
  have "bound (n_Q nd) (n_P nd) (n_R nd) \<le> bound Q0 P0 R0"
    using mb ok v red unfolding monotone_bound_def problem_ok_def by blast
  then have le: "n_obj nd \<le> obj0" using nd obj0 by (simp add: tied_def)
  note cok = child_problem_ok [OF ok cd, of obj0 "relSolved os'" pivot0]
  show ?thesis
    using q ge le obj0 cok
    by (simp add: s' queue_ok_def sorted_heappush list_all_heappush set_heappush tied_def)
qed

lemma iteration_queue_ok:
  assumes rb: "returns_bound bound orc" and mb: "monotone_bound bound"
    and act: "active s = nd # rest"
    and q: "queue_ok bound (active s)"
    and fin: "iteration c orc s = Inr (Continued s')"
  shows "queue_ok bound (active s') \<and> (\<forall>x\<in>set (active s'). n_obj nd \<le> n_obj x)"
proof -
  let ?s1 = "s\<lparr>active := rest, lb := n_obj nd\<rparr>"
  have nd: "tied bound nd" and ok: "problem_ok nd"
    using q act by (simp_all add: queue_ok_def)
  have 1: "queue_ok bound (active ?s1)" "\<forall>x\<in>set (active ?s1). n_obj nd \<le> n_obj x"
    using q act by (auto simp: queue_ok_def)
  from act fin show ?thesis
  proof (cases rule: iteration_cases)
    case leaf
    then show ?thesis using 1 by simp
  next
    case (expand pidx s2)
    have v0: "(0::real) = 0 \<or> (0::real) = 1" and v1: "(1::real) = 0 \<or> (1::real) = 1"
      by simp_all
    from branch_queue_ok [OF rb mb nd ok v0 1 expand(4)]
    have 2: "queue_ok bound (active s2)" "\<forall>x\<in>set (active s2). n_obj nd \<le> n_obj x"
      by simp_all
    from branch_queue_ok [OF rb mb nd ok v1 2 expand(5)] show ?thesis .
  qed
qed

lemma lb_trace_sorted_aux:
  "returns_bound bound orc \<Longrightarrow> monotone_bound bound
    \<Longrightarrow> queue_ok bound (active s)
    \<Longrightarrow> \<forall>x\<in>set (active s). m \<le> n_obj x
    \<Longrightarrow> sorted (lb_trace c orc s) \<and> (\<forall>v\<in>set (lb_trace c orc s). m \<le> v)"
proof (induction c orc s arbitrary: m rule: lb_trace.induct)
  case (1 c orc s)
  note rb = "1.prems"(1) and mb = "1.prems"(2)
  show ?case
  proof (cases "active s")
    case Nil
    then show ?thesis by (simp add: lb_trace_Nil)
  next
    case (Cons nd rest)
    note tr = lb_trace_Cons [OF Cons, of c orc]
    have m: "m \<le> n_obj nd" using "1.prems"(4) Cons by simp
    show ?thesis
    proof (cases "iteration c orc s")
      case (Inl e)
      then show ?thesis using m by (simp add: tr)
    next
      case (Inr f)
      show ?thesis
      proof (cases f)
        case (Returned s')
        then show ?thesis using m Inr by (simp add: tr)
      next
        case (Continued s')
        have fin: "iteration c orc s = Inr (Continued s')" using Inr Continued by simp
        have ne: "active s \<noteq> []" using Cons by simp
        from iteration_queue_ok [OF rb mb Cons "1.prems"(3) fin]
        have q: "queue_ok bound (active s')"
          and ge: "\<forall>x\<in>set (active s'). n_obj nd \<le> n_obj x" by simp_all
        from "1.IH" [OF ne Inr Continued rb mb q ge]
        have "sorted (lb_trace c orc s')" and "\<forall>v\<in>set (lb_trace c orc s'). n_obj nd \<le> v"
          by simp_all
        then show ?thesis using m fin by (auto simp: tr)
      qed
    qed
  qed
qed

lemma binary_vectors_nonempty: "binary_vectors n \<noteq> []"
  by (induction n) auto

lemma optimum_le:
  "x \<in> set (binary_vectors (length P)) \<Longrightarrow> optimum Q P R \<le> objective Q P R x"
  unfolding optimum_def by (intro Min_le) auto

lemma optimum_ge:
  assumes "\<forall>x\<in>set (binary_vectors (length P)). l \<le> objective Q P R x"
  shows "l \<le> optimum Q P R"
proof -
  let ?S = "set (map (objective Q P R) (binary_vectors (length P)))"
  have "finite ?S" by simp
  moreover have "?S \<noteq> {}" using binary_vectors_nonempty [of "length P"] by simp
  ultimately have "Min ?S \<in> ?S" by (rule Min_in)
  then show ?thesis using assms by (auto simp: optimum_def)
qed

lemma binary_vectors_iff:
  "x \<in> set (binary_vectors n) \<longleftrightarrow> length x = n \<and> list_all (\<lambda>t. t = 0 \<or> t = 1) x"
proof (induction n arbitrary: x)
  case 0
  show ?case by auto
next
  case (Suc n)
  show ?case
  proof (cases x)
    case Nil
    then show ?thesis by auto
  next
    case (Cons a xs)
    have "x \<in> set (binary_vectors (Suc n)) \<longleftrightarrow> (a = 0 \<or> a = 1) \<and> xs \<in> set (binary_vectors n)"
      using Cons by auto
    then show ?thesis using Suc [of xs] Cons by auto
  qed
qed

lemma insert_at_binary:
  assumes "y \<in> set (binary_vectors n)" and "p \<le> n" and "v = 0 \<or> v = 1"
  shows "insert_at p v y \<in> set (binary_vectors (Suc n))"
proof -
  from assms(1) have ly: "length y = n" and bn: "list_all (\<lambda>t. t = 0 \<or> t = 1) y"
    by (simp_all add: binary_vectors_iff)
  have "set (insert_at p v y) \<subseteq> insert v (set y)"
    by (auto simp: insert_at_def dest: in_set_takeD in_set_dropD)
  then have "list_all (\<lambda>t. t = 0 \<or> t = 1) (insert_at p v y)"
    using bn assms(3) by (auto simp: list_all_iff)
  then show ?thesis using ly unfolding binary_vectors_iff by (simp add: length_insert_at)
qed

lemma reduce_objective:
  assumes sq: "square n Q" and sy: "symmetric Q" and lp: "length P = n"
    and p: "pivot < n" and v: "val = 0 \<or> val = 1" and ly: "length y = n - 1"
    and red: "reduce Q P R pivot val = Inr (Q0, P0, R0)"
  shows "objective Q0 P0 R0 y = objective Q P R (insert_at pivot val y)"
proof -
  let ?QT = "delete_at pivot Q"
  let ?QZ = "map (\<lambda>row. row ! pivot) ?QT"
  let ?Q0 = "map (delete_at pivot) ?QT"
  let ?PT = "delete_at pivot P"
  let ?P0 = "map2 (+) ?PT (scale (2 * val) ?QZ)"
  let ?R0 = "val * (Q ! pivot ! pivot) + val * (P ! pivot) + R"
  have lq: "length Q = n" using sq by (simp add: square_def)
  have py: "pivot \<le> length y" and ny: "n = Suc (length y)" using p ly by simp_all
  have eq: "Q0 = ?Q0" "P0 = ?P0" "R0 = ?R0"
    using red reduce_ok [OF sq lp p, of R val] by simp_all
  have len: "length ?PT = length (scale (2 * val) ?QZ)"
    using lp lq p by (simp add: length_delete_at length_scale)
  have lin: "dot ?P0 y = dot ?PT y + 2 * val * dot ?QZ y"
    using len by (simp add: dot_commute [of _ y] dot_add_right dot_scale_right)
  have pin: "dot P (insert_at pivot val y) = P ! pivot * val + dot ?PT y"
    using lp py ny by (simp add: dot_insert)
  have "objective Q P R (insert_at pivot val y)
      = val * val * (Q ! pivot ! pivot) + 2 * val * dot ?QZ y + quad ?Q0 y
        + (P ! pivot * val + dot ?PT y) + R"
    unfolding objective_def using quad_insert [OF sq sy p ly, of val] pin by simp
  also have "\<dots> = objective ?Q0 ?P0 ?R0 y"
    unfolding objective_def using lin v by (auto simp: algebra_simps)
  finally show ?thesis unfolding eq by simp
qed

lemma monotone_bound_optimum: "monotone_bound optimum"
  unfolding monotone_bound_def
proof (intro allI impI)
  fix Q P R p v Q0 P0 R0
  assume h: "square (length P) Q \<and> symmetric Q \<and> (v = 0 \<or> v = 1)
      \<and> reduce Q P R p v = Inr (Q0, P0, R0)"
  then have sq: "square (length P) Q" and sy: "symmetric Q" and v: "v = 0 \<or> v = 1"
    and red: "reduce Q P R p v = Inr (Q0, P0, R0)" by simp_all
  have p: "p < length P"
    using red by (auto simp: reduce_def bindE_Inr np_index_def split: if_splits)
  have lq: "length Q = length P" using sq by (simp add: square_def)
  have "P0 = map2 (+) (delete_at p P)
      (scale (2 * v) (map (\<lambda>row. row ! p) (delete_at p Q)))"
    using red reduce_ok [OF sq refl p, of R v] by simp
  then have l0: "length P0 = length P - 1"
    using p lq by (simp add: length_delete_at length_scale)
  have "optimum Q P R \<le> objective Q0 P0 R0 y" if y: "y \<in> set (binary_vectors (length P0))" for y
  proof -
    have ly: "length y = length P - 1" using y l0 by (simp add: binary_vectors_iff)
    have "insert_at p v y \<in> set (binary_vectors (Suc (length P0)))"
      using y _ v by (rule insert_at_binary) (use p l0 in simp)
    moreover have "Suc (length P0) = length P" using p l0 by simp
    ultimately have "insert_at p v y \<in> set (binary_vectors (length P))" by simp
    then have "optimum Q P R \<le> objective Q P R (insert_at p v y)" by (rule optimum_le)
    then show ?thesis using reduce_objective [OF sq sy refl p v ly red] by simp
  qed
  then show "optimum Q P R \<le> optimum Q0 P0 R0" by (intro optimum_ge) simp
qed

text \<open>
  Claim C3 (lower-bound monotonicity). The oracle returns the optimal value of a
  relaxation of the reduced problem it is given: a function of the reduced data that
  does not decrease when a variable of a symmetric problem is fixed to 0 or 1, each
  solution of the child's problem being one of the parent's with the same objective
  (\<open>monotone_bound\<close>; the exact optimum over \<open>{0,1}\<^sup>n\<close> is such a function). When the
  queue the loop starts with is ordered by objective and holds square symmetric problems
  carrying that value, as the queue holding the root does, the objectives of the popped
  nodes, and so the values of the lower bound, are non-decreasing over the run.
\<close>

theorem lower_bound_monotone:
  assumes "returns_bound bound orc" and "monotone_bound bound"
    and "queue_ok bound (active s)"
  shows "sorted (lb_trace c orc s)"
proof (cases "active s")
  case Nil
  then show ?thesis by (simp add: lb_trace_Nil)
next
  case (Cons nd rest)
  then have "\<forall>x\<in>set (active s). n_obj nd \<le> n_obj x"
    using assms(3) by (auto simp: queue_ok_def)
  from lb_trace_sorted_aux [OF assms(1,2,3) this] show ?thesis by simp
qed

lemma optimum_pair: "optimum Q [a, b] R =
  Min {objective Q [a, b] R [0, 0], objective Q [a, b] R [0, 1],
       objective Q [a, b] R [1, 0], objective Q [a, b] R [1, 1]}"
  by (simp add: optimum_def numeral_2_eq_2)

lemma optimum_single: "optimum Q [a] R = Min {objective Q [a] R [0], objective Q [a] R [1]}"
  by (simp add: optimum_def)

theorem lower_bound_monotone_witness:
  "returns_bound optimum exact_oracle \<and> monotone_bound optimum
   \<and> queue_ok optimum (active exact_state)
   \<and> lb_trace GapTolerance exact_oracle exact_state = [-1, -1, 0]
   \<and> sorted (lb_trace GapTolerance exact_oracle exact_state)"
proof -
  have rb: "returns_bound optimum exact_oracle"
    by (auto simp: returns_bound_def exact_oracle_def)
  note mb = monotone_bound_optimum
  have q: "queue_ok optimum (active exact_state)"
    by (simp add: queue_ok_def tied_def problem_ok_def square_def symmetric_def upt_rec
        optimum_pair objective_def quad_def dot_def exact_state_def)
  have tr: "lb_trace GapTolerance exact_oracle exact_state = [-1, -1, 0]"
    by (simp add: lb_trace.simps run_defs exact_oracle_def exact_state_def optimum_single)
  from lower_bound_monotone [OF rb mb q, of GapTolerance] rb mb q tr
  show ?thesis by simp
qed

section \<open>Termination with the integer-rounded test\<close>

lemma lb_trace_length: "length (lb_trace c orc s) \<le> potential (active s)"
proof (induction c orc s rule: lb_trace.induct)
  case (1 c orc s)
  show ?case
  proof (cases "active s")
    case Nil
    then show ?thesis by (simp add: lb_trace_Nil)
  next
    case (Cons nd rest)
    note tr = lb_trace_Cons [OF Cons, of c orc]
    have pos: "1 \<le> potential (active s)"
      using Cons wt_pos [of "node_dim nd"] by (simp add: potential_def)
    show ?thesis
    proof (cases "iteration c orc s")
      case (Inl e)
      then show ?thesis using pos by (simp add: tr)
    next
      case (Inr f)
      show ?thesis
      proof (cases f)
        case (Returned s')
        then show ?thesis using pos Inr by (simp add: tr)
      next
        case (Continued s')
        have fin: "iteration c orc s = Inr (Continued s')" using Inr Continued by simp
        have ne: "active s \<noteq> []" using Cons by simp
        from "1.IH" [OF ne Inr Continued] iteration_potential [OF fin]
        show ?thesis using fin by (simp add: tr)
      qed
    qed
  qed
qed

lemma binary_vectors_Ints: "x \<in> set (binary_vectors n) \<Longrightarrow> list_all (\<lambda>t. t \<in> \<int>) x"
  by (induction n arbitrary: x) auto

lemma dot_Ints:
  "list_all (\<lambda>t. t \<in> \<int>) xs \<Longrightarrow> list_all (\<lambda>t. t \<in> \<int>) ys \<Longrightarrow> dot xs ys \<in> \<int>"
proof (induction xs arbitrary: ys)
  case Nil
  then show ?case by (simp add: dot_def)
next
  case (Cons x xs)
  show ?case
  proof (cases ys)
    case Nil
    then show ?thesis by (simp add: dot_def)
  next
    case (Cons y ys')
    have "dot xs ys' \<in> \<int>" using Cons.IH [of ys'] Cons.prems Cons by simp
    moreover have "x * y \<in> \<int>" using Cons.prems Cons by simp
    ultimately show ?thesis using Cons by (simp add: dot_def)
  qed
qed

lemma objective_Ints:
  assumes "integral_data Q P R" and x: "list_all (\<lambda>t. t \<in> \<int>) x"
  shows "objective Q P R x \<in> \<int>"
proof -
  have Q: "list_all (list_all (\<lambda>q. q \<in> \<int>)) Q" and P: "list_all (\<lambda>p. p \<in> \<int>) P"
    and R: "R \<in> \<int>" using assms(1) by (simp_all add: integral_data_def)
  have "list_all (\<lambda>t. t \<in> \<int>) (map (\<lambda>row. dot row x) Q)"
    using Q x by (auto simp: list_all_iff intro: dot_Ints)
  then have "quad Q x \<in> \<int>" unfolding quad_def using x by (intro dot_Ints)
  moreover have "dot P x \<in> \<int>" using P x by (rule dot_Ints)
  ultimately show ?thesis using R by (simp add: objective_def)
qed

lemma optimum_Ints:
  assumes "integral_data Q P R"
  shows "optimum Q P R \<in> \<int>"
proof -
  let ?S = "set (map (objective Q P R) (binary_vectors (length P)))"
  have "finite ?S" by simp
  moreover have "?S \<noteq> {}" using binary_vectors_nonempty [of "length P"] by simp
  ultimately have "Min ?S \<in> ?S" by (rule Min_in)
  then obtain x where "x \<in> set (binary_vectors (length P))" and "Min ?S = objective Q P R x"
    by auto
  then show ?thesis
    using objective_Ints [OF assms binary_vectors_Ints] by (simp add: optimum_def)
qed

lemma solveBB_Returned:
  "solveBB c orc s = Inr (Returned s') \<Longrightarrow> optimality_proved c s' \<and> active s' = []"
proof (induction c orc s rule: solveBB.induct)
  case (1 c orc s)
  show ?case
  proof (cases "active s")
    case Nil
    then show ?thesis using "1.prems" by (simp add: solveBB.simps)
  next
    case (Cons nd rest)
    then have ne: "active s \<noteq> []" by simp
    show ?thesis
    proof (cases "iteration c orc s")
      case (Inl e)
      then show ?thesis using "1.prems" ne by (simp add: solveBB.simps)
    next
      case (Inr f)
      show ?thesis
      proof (cases f)
        case (Returned t)
        then have t: "t = s'" using "1.prems" ne Inr by (simp add: solveBB.simps)
        have "iteration c orc s = Inr (Returned s')" using Inr Returned t by simp
        then show ?thesis
          unfolding iteration_pop [OF Cons]
          by (auto simp: Let_def bindE_Inr optimality_proved_def split: if_splits criterion.splits)
      next
        case (Continued t)
        then have "solveBB c orc t = Inr (Returned s')"
          using "1.prems" ne Inr by (simp add: solveBB.simps)
        from "1.IH" [OF ne Inr Continued this] show ?thesis .
      qed
    qed
  qed
qed

text \<open>
  Claim C4 (integer-rounded termination). With integral \<open>Q\<close>, \<open>P\<close> and \<open>R\<close> and the test
  \<^verbatim>\<open>np.ceil(self.lb) >= self.ub\<close>, when the loop returns through the test in a state
  whose lower bound is below the objective of every 0/1 vector and whose upper bound is
  the objective of the 0/1 vector held as incumbent, the upper bound is the exact optimum
  over \<open>{0,1}\<^sup>n\<close> and an integer. The loop pops at most \<open>potential\<close> of the starting queue
  many nodes, \<open>2\<^sup>n - 1\<close> for a root of dimension \<open>n\<close>.
\<close>

theorem integer_rounded_termination:
  assumes int: "integral_data Q P R"
    and ret: "solveBB IntegerCeiling orc s = Inr (Returned s')"
    and low: "\<forall>x\<in>set (binary_vectors (length P)). lb s' \<le> objective Q P R x"
    and feas: "incumbent (ost s') \<in> set (binary_vectors (length P))"
    and val: "objective Q P R (incumbent (ost s')) = ub (ost s')"
  shows "ub (ost s') = optimum Q P R \<and> ub (ost s') \<in> \<int>
       \<and> length (lb_trace IntegerCeiling orc s) \<le> potential (active s)"
proof -
  from solveBB_Returned [OF ret] have "ub (ost s') \<le> of_int \<lceil>lb s'\<rceil>"
    by (simp add: optimality_proved_def)
  moreover obtain k where k: "optimum Q P R = of_int k"
    using optimum_Ints [OF int] by (auto elim: Ints_cases)
  have "lb s' \<le> optimum Q P R" by (rule optimum_ge [OF low])
  then have "\<lceil>lb s'\<rceil> \<le> k" unfolding k by (simp add: ceiling_le_iff)
  then have "(of_int \<lceil>lb s'\<rceil> :: real) \<le> optimum Q P R" unfolding k by simp
  moreover have "optimum Q P R \<le> ub (ost s')" using optimum_le [OF feas, of Q R] val by simp
  ultimately have eq: "ub (ost s') = optimum Q P R" by simp
  then have "ub (ost s') \<in> \<int>" using optimum_Ints [OF int] by simp
  with eq lb_trace_length [of IntegerCeiling orc s] show ?thesis by simp
qed

theorem integer_rounded_termination_witness:
  "integral_data [[0, 0], [0, 0]] [1, 1] 0
   \<and> solveBB IntegerCeiling example_oracle example_state
       = Inr (Returned (example_final\<lparr>lb := - 1 / 2\<rparr>))
   \<and> incumbent (ost (example_final\<lparr>lb := - 1 / 2\<rparr>)) \<in> set (binary_vectors (length [1, 1 :: real]))
   \<and> objective [[0, 0], [0, 0]] [1, 1] 0 (incumbent (ost (example_final\<lparr>lb := - 1 / 2\<rparr>)))
       = ub (ost (example_final\<lparr>lb := - 1 / 2\<rparr>))
   \<and> ub (ost (example_final\<lparr>lb := - 1 / 2\<rparr>)) = optimum [[0, 0], [0, 0]] [1, 1] 0
   \<and> optimum [[0, 0], [0, 0]] [1, 1] 0 = 0
   \<and> length (lb_trace IntegerCeiling example_oracle example_state) \<le> 3"
proof -
  let ?s' = "example_final\<lparr>lb := - 1 / 2\<rparr>"
  have bv: "binary_vectors (length [1, 1 :: real]) = [[0, 0], [0, 1], [1, 0], [1, 1]]"
    by (simp add: numeral_2_eq_2)
  have int: "integral_data [[0, 0], [0, 0]] [1, 1] 0" by (simp add: integral_data_def)
  have ret: "solveBB IntegerCeiling example_oracle example_state = Inr (Returned ?s')"
    by (simp add: solveBB.simps run_defs example_defs example_final_def)
  have low: "\<forall>x\<in>set (binary_vectors (length [1, 1 :: real])).
      lb ?s' \<le> objective [[0, 0], [0, 0]] [1, 1] 0 x"
    unfolding bv by (simp add: objective_def quad_def dot_def example_final_def)
  have feas: "incumbent (ost ?s') \<in> set (binary_vectors (length [1, 1 :: real]))"
    unfolding bv by (simp add: example_final_def)
  have val: "objective [[0, 0], [0, 0]] [1, 1] 0 (incumbent (ost ?s')) = ub (ost ?s')"
    by (simp add: objective_def quad_def dot_def example_final_def)
  have pot: "potential (active example_state) = 3"
    by (simp add: potential_def wt_def node_dim_def example_defs)
  from integer_rounded_termination [OF int ret low feas val]
  have "ub (ost ?s') = optimum [[0, 0], [0, 0]] [1, 1] 0"
    and "length (lb_trace IntegerCeiling example_oracle example_state) \<le> 3"
    using pot by simp_all
  moreover have "ub (ost ?s') = 0" by (simp add: example_final_def)
  ultimately show ?thesis using int ret feas val by simp
qed

section \<open>Lower and upper bound at the termination check\<close>


lemma iteration_Returned_iff:
  "iteration GapTolerance orc t = Inr (Returned t') \<longleftrightarrow>
     active t \<noteq> [] \<and> round64 (ub (ost t) - gaptol t) \<le> round64 (n_obj (hd (active t)))
     \<and> t' = t\<lparr>active := [], lb := n_obj (hd (active t))\<rparr>"
proof (cases "active t")
  case Nil
  then show ?thesis by (simp add: iteration_def heappop_def bindE_def)
next
  case (Cons nd rest)
  show ?thesis
    unfolding iteration_pop [OF Cons]
    by (auto simp: Cons Let_def bindE_Inr optimality_proved_def split: if_splits)
qed




section \<open>Termination through the gap check\<close>

lemma fold_update_length:
  "length (fold (\<lambda>(i, v) c. c[i := v]) ps c) = length c"
  by (induction ps arbitrary: c) auto

lemma fold_update_nth:
  "j < length c \<Longrightarrow> \<forall>v\<in>snd ` set ps. Pv v \<Longrightarrow> j \<in> fst ` set ps \<or> Pv (c ! j)
   \<Longrightarrow> Pv (fold (\<lambda>(i, v) c. c[i := v]) ps c ! j)"
proof (induction ps arbitrary: c)
  case Nil
  then show ?case by simp
next
  case (Cons a ps)
  obtain i v where a: "a = (i, v)" by (cases a)
  have len: "j < length (c[i := v])" using Cons.prems(1) by simp
  have vs: "\<forall>v\<in>snd ` set ps. Pv v" using Cons.prems(2) by simp
  have "j \<in> fst ` set ps \<or> Pv (c[i := v] ! j)"
  proof (cases "j \<in> fst ` set ps")
    case True
    then show ?thesis by simp
  next
    case False
    show ?thesis
    proof (cases "j = i")
      case True
      then show ?thesis using Cons.prems(1,2) a by simp
    next
      case False
      then show ?thesis using Cons.prems(3) a \<open>j \<notin> fst ` set ps\<close> by auto
    qed
  qed
  from Cons.IH [OF len vs this] show ?case by (simp add: a)
qed

lemma round01_binary: "round01 t = 0 \<or> round01 t = 1"
  by (simp add: round01_def)

lemma scatter_binary:
  assumes len: "length cur = n"
    and ok: "list_all (\<lambda>j. j \<in> set im \<or> cur ! j = 0 \<or> cur ! j = 1) [0..<n]"
    and sc: "scatter cur im (map round01 x) = Inr full"
  shows "binary full \<and> length full = n"
proof -
  let ?ps = "zip im (map round01 x)"
  from sc have lx: "length x = length im"
    and full: "full = fold (\<lambda>(i, v) c. c[i := v]) ?ps cur"
    by (auto simp: scatter_def split: if_splits)
  have lf: "length full = n" using len by (simp add: full fold_update_length)
  have fst: "fst ` set ?ps = set im"
    using lx by (metis length_map map_fst_zip set_map)
  have vs: "\<forall>v\<in>snd ` set ?ps. v = 0 \<or> v = 1"
    by (auto simp: round01_def dest!: set_zip_rightD)
  have "full ! j = 0 \<or> full ! j = 1" if j: "j < n" for j
  proof -
    have "j \<in> fst ` set ?ps \<or> (cur ! j = 0 \<or> cur ! j = 1)"
      using ok j unfolding fst by (auto simp: list_all_iff)
    from fold_update_nth [where Pv = "\<lambda>v. v = 0 \<or> v = 1", OF _ vs this] j len
    show ?thesis by (simp add: full)
  qed
  then have "binary full" using lf by (simp add: binary_def list_all_length)
  with lf show ?thesis by simp
qed

lemma solveRelaxation_incumbent:
  assumes inc: "incumbent_ok Qo Po Ro os"
    and len: "length cur = length Po"
    and ok: "list_all (\<lambda>j. j \<in> set im \<or> cur ! j = 0 \<or> cur ! j = 1) [0..<length Po]"
    and call: "solveRelaxation sdp Qo Po Ro os Q P R cur im = Inr (r, os')"
  shows "incumbent_ok Qo Po Ro os'"
proof -
  from call obtain objv x full where
    sc: "scatter cur im (map round01 x) = Inr full"
    and os': "os' = (if objective Qo Po Ro full < ub os
                     then os\<lparr>relSolved := relSolved os + 1, ub := objective Qo Po Ro full,
                            incumbent := full\<rparr>
                     else os\<lparr>relSolved := relSolved os + 1\<rparr>)"
    unfolding solveRelaxation_def by (auto simp: bindE_Inr Let_def split: if_splits)
  from scatter_binary [OF len ok sc] inc show ?thesis
    by (auto simp: os' incumbent_ok_def)
qed

lemma set_delete_at_sup:
  "p < length xs \<Longrightarrow> set xs \<subseteq> insert (xs ! p) (set (delete_at p xs))"
proof -
  assume "p < length xs"
  then have "xs = take p xs @ xs ! p # drop (Suc p) xs" by (simp add: id_take_nth_drop)
  then have "set xs = set (take p xs) \<union> insert (xs ! p) (set (drop (Suc p) xs))"
    by (metis set_append list.simps(15))
  then show ?thesis by (auto simp: delete_at_def)
qed

lemma child_assign_ok:
  assumes ok: "assign_ok n nd"
    and px: "np_index (n_idxmap nd) (n_pivot nd) = Inr pidx"
    and v: "val = 0 \<or> val = 1"
    and cd: "child_data nd pidx val = Inr (Q0, P0, R0, curr0, idxmap0)"
  shows "length curr0 = n
       \<and> list_all (\<lambda>j. j \<in> set idxmap0 \<or> curr0 ! j = 0 \<or> curr0 ! j = 1) [0..<n]"
proof -
  let ?p = "n_pivot nd" and ?im = "n_idxmap nd" and ?cur = "n_curr nd"
  from px have p: "?p < length ?im" and pidx: "pidx = ?im ! ?p"
    by (auto simp: np_index_def split: if_splits)
  from cd have i0: "idxmap0 = delete_at ?p ?im" and c0: "curr0 = ?cur[pidx := val]"
    and pl: "pidx < length ?cur"
    unfolding child_data_def
    by (auto simp: bindE_Inr np_delete_def np_setitem_def split: if_splits)
  have len: "length ?cur = n"
    and old: "\<And>j. j < n \<Longrightarrow> j \<in> set ?im \<or> ?cur ! j = 0 \<or> ?cur ! j = 1"
    using ok by (auto simp: assign_ok_def list_all_iff)
  have "j \<in> set idxmap0 \<or> curr0 ! j = 0 \<or> curr0 ! j = 1" if j: "j < n" for j
  proof (cases "j = pidx")
    case True
    then show ?thesis using v pl by (simp add: c0)
  next
    case False
    show ?thesis
    proof (cases "j \<in> set ?im")
      case True
      then have "j \<in> set idxmap0"
        using set_delete_at_sup [OF p] False pidx i0 by auto
      then show ?thesis by simp
    next
      case False
      then show ?thesis using old [OF j] \<open>j \<noteq> pidx\<close> by (simp add: c0)
    qed
  qed
  then show ?thesis using len by (simp add: c0 list_all_iff)
qed

lemma branch_state_ok:
  assumes ok: "assign_ok (length Po) nd"
    and px: "np_index (n_idxmap nd) (n_pivot nd) = Inr pidx"
    and v: "val = 0 \<or> val = 1"
    and st: "state_ok Qo Po Ro s"
    and b: "branch (solveRelaxation sdp Qo Po Ro) nd pidx val s = Inr s'"
  shows "state_ok Qo Po Ro s'"
proof -
  from b obtain Q0 P0 R0 curr0 idxmap0 obj0 pivot0 os' where
    cd: "child_data nd pidx val = Inr (Q0, P0, R0, curr0, idxmap0)"
    and o: "solveRelaxation sdp Qo Po Ro (ost s) Q0 P0 R0 curr0 idxmap0 = Inr ((obj0, pivot0), os')"
    and s': "s' = s\<lparr>ost := os', active := heappush (active s)
               \<lparr>n_obj = obj0, n_seq = relSolved os', n_Q = Q0, n_P = P0, n_R = R0,
                n_curr = curr0, n_idxmap = idxmap0, n_pivot = pivot0\<rparr>\<rparr>"
    by (rule branch_cases)
  from child_assign_ok [OF ok px v cd]
  have len: "length curr0 = length Po"
    and bin: "list_all (\<lambda>j. j \<in> set idxmap0 \<or> curr0 ! j = 0 \<or> curr0 ! j = 1) [0..<length Po]"
    by simp_all
  have inc: "incumbent_ok Qo Po Ro (ost s)" using st by (simp add: state_ok_def)
  have "incumbent_ok Qo Po Ro os'" by (rule solveRelaxation_incumbent [OF inc len bin o])
  then show ?thesis
    using st len bin by (simp add: s' state_ok_def list_all_heappush assign_ok_def)
qed

lemma iteration_state_ok:
  assumes st: "state_ok Qo Po Ro s" and ne: "active s \<noteq> []"
    and fin: "iteration c (solveRelaxation sdp Qo Po Ro) s = Inr (Continued s')"
  shows "state_ok Qo Po Ro s'"
proof -
  from ne obtain nd rest where act: "active s = nd # rest" by (cases "active s") auto
  let ?s1 = "s\<lparr>active := rest, lb := n_obj nd\<rparr>"
  have nd: "assign_ok (length Po) nd" and 1: "state_ok Qo Po Ro ?s1"
    using st act by (simp_all add: state_ok_def)
  from act fin show ?thesis
  proof (cases rule: iteration_cases)
    case leaf
    then show ?thesis using 1 by simp
  next
    case (expand pidx s2)
    have v0: "(0::real) = 0 \<or> (0::real) = 1" and v1: "(1::real) = 0 \<or> (1::real) = 1"
      by simp_all
    from branch_state_ok [OF nd expand(3) v0 1 expand(4)] have "state_ok Qo Po Ro s2" .
    from branch_state_ok [OF nd expand(3) v1 this expand(5)] show ?thesis .
  qed
qed

lemma solveBB_Returned_from:
  "solveBB c orc s = Inr (Returned s') \<Longrightarrow>
   \<exists>t. reaches c orc s t \<and> iteration c orc t = Inr (Returned s')"
proof (induction c orc s rule: solveBB.induct)
  case (1 c orc s)
  show ?case
  proof (cases "active s = []")
    case True
    then show ?thesis using "1.prems" by (simp add: solveBB.simps)
  next
    case ne: False
    show ?thesis
    proof (cases "iteration c orc s")
      case (Inl e)
      then show ?thesis using "1.prems" ne by (simp add: solveBB.simps)
    next
      case (Inr f)
      show ?thesis
      proof (cases f)
        case (Returned t)
        then have "iteration c orc s = Inr (Returned s')"
          using "1.prems" ne Inr by (simp add: solveBB.simps)
        then show ?thesis using reaches_start by blast
      next
        case (Continued t)
        then have "solveBB c orc t = Inr (Returned s')"
          using "1.prems" ne Inr by (simp add: solveBB.simps)
        from "1.IH" [OF ne Inr Continued this] obtain u where
          u: "reaches c orc t u" and it: "iteration c orc u = Inr (Returned s')" by blast
        have step: "reaches c orc s t"
          using reaches_step [OF reaches_start ne] Inr Continued by simp
        have "reaches c orc s u" using u step
        proof (induction rule: reaches.induct)
          case reaches_start
          then show ?case .
        next
          case (reaches_step t' u')
          then show ?case using reaches.reaches_step by blast
        qed
        with it show ?thesis by blast
      qed
    qed
  qed
qed

lemma reaches_state_ok:
  assumes "reaches c (solveRelaxation sdp Qo Po Ro) s t" and "state_ok Qo Po Ro s"
  shows "state_ok Qo Po Ro t"
  using assms by (induction rule: reaches.induct) (auto intro: iteration_state_ok)

text \<open>
  Claim C2 (gap-check termination), as amended. An iteration leaves the loop through
  the termination check exactly when the queue is non-empty and, with the lower bound
  set to the popped objective, \<open>lb \<ge> round64 (ub - gaptol)\<close> holds, the difference being
  the rounded one of binary64 arithmetic; the state it returns has an empty queue. When
  the loop, run with \<open>solveRelaxation\<close> over any external solver from a state whose
  incumbent and assignments are in order, returns through the check, the queue is
  empty, \<open>ub - lb\<close> is at most \<open>gaptol\<close> plus the rounding error of the difference, half a
  unit in the last place of \<open>ub - gaptol\<close>, and at most \<open>gaptol\<close> when \<open>ub - gaptol\<close> is a
  binary64 number, as it is for a tolerance of 0; and the incumbent is a 0/1 vector of
  the problem's length whose objective on the original problem is the upper bound.
  The lower bound is a binary64 number in the notebook, \<open>round64 lb = lb\<close>.
\<close>

theorem gap_check_termination:
  assumes st: "state_ok Qo Po Ro s"
  shows "(iteration GapTolerance orc t = Inr (Returned t') \<longleftrightarrow>
            active t \<noteq> []
            \<and> round64 (ub (ost t) - gaptol t) \<le> round64 (n_obj (hd (active t)))
            \<and> t' = t\<lparr>active := [], lb := n_obj (hd (active t))\<rparr>)
       \<and> (solveBB GapTolerance (solveRelaxation sdp Qo Po Ro) s = Inr (Returned s') \<longrightarrow>
            active s' = []
            \<and> round64 (ub (ost s') - gaptol s') \<le> round64 (lb s')
            \<and> ub (ost s') - round64 (lb s')
                 \<le> gaptol s' + \<bar>ub (ost s') - gaptol s'\<bar> / 2 ^ 53 + 2 powi (- 1075)
            \<and> (float64 (ub (ost s') - gaptol s') \<and> float64 (lb s')
                 \<longrightarrow> ub (ost s') - lb s' \<le> gaptol s')
            \<and> binary (incumbent (ost s')) \<and> length (incumbent (ost s')) = length Po
            \<and> objective Qo Po Ro (incumbent (ost s')) = ub (ost s'))"
proof -
  have 2: "active s' = []
            \<and> round64 (ub (ost s') - gaptol s') \<le> round64 (lb s')
            \<and> ub (ost s') - round64 (lb s')
                 \<le> gaptol s' + \<bar>ub (ost s') - gaptol s'\<bar> / 2 ^ 53 + 2 powi (- 1075)
            \<and> (float64 (ub (ost s') - gaptol s') \<and> float64 (lb s')
                 \<longrightarrow> ub (ost s') - lb s' \<le> gaptol s')
            \<and> binary (incumbent (ost s')) \<and> length (incumbent (ost s')) = length Po
            \<and> objective Qo Po Ro (incumbent (ost s')) = ub (ost s')"
    if ret: "solveBB GapTolerance (solveRelaxation sdp Qo Po Ro) s = Inr (Returned s')"
  proof -
    from solveBB_Returned_from [OF ret] obtain u where
      r: "reaches GapTolerance (solveRelaxation sdp Qo Po Ro) s u"
      and it: "iteration GapTolerance (solveRelaxation sdp Qo Po Ro) u = Inr (Returned s')"
      by blast
    have "state_ok Qo Po Ro u" by (rule reaches_state_ok [OF r st])
    then have inc: "incumbent_ok Qo Po Ro (ost u)" by (simp add: state_ok_def)
    from it have s': "s' = u\<lparr>active := [], lb := n_obj (hd (active u))\<rparr>"
      and gap: "round64 (ub (ost u) - gaptol u) \<le> round64 (n_obj (hd (active u)))"
      by (simp_all add: iteration_Returned_iff)
    define x where "x = ub (ost s') - gaptol s'"
    have g: "round64 x \<le> round64 (lb s')" using gap by (simp add: s' x_def)
    have "x - round64 x \<le> \<bar>x\<bar> / 2 ^ 53 + 2 powi (- 1075)"
      using round64_error [of x] by linarith
    with g have err: "x - round64 (lb s') \<le> \<bar>x\<bar> / 2 ^ 53 + 2 powi (- 1075)" by linarith
    have ex: "x \<le> lb s'" if "float64 x \<and> float64 (lb s')"
      using that g by (simp add: float64_def)
    have a: "active s' = []" by (simp add: s')
    have b: "ub (ost s') - round64 (lb s')
        \<le> gaptol s' + \<bar>ub (ost s') - gaptol s'\<bar> / 2 ^ 53 + 2 powi (- 1075)"
      using err unfolding x_def by linarith
    have c: "float64 (ub (ost s') - gaptol s') \<and> float64 (lb s')
        \<longrightarrow> ub (ost s') - lb s' \<le> gaptol s'"
      using ex unfolding x_def by auto
    have d: "binary (incumbent (ost s')) \<and> length (incumbent (ost s')) = length Po
        \<and> objective Qo Po Ro (incumbent (ost s')) = ub (ost s')"
      using inc by (simp add: s' incumbent_ok_def)
    from a g [unfolded x_def] b c d show ?thesis by blast
  qed
  have 1: "iteration GapTolerance orc t = Inr (Returned t') \<longleftrightarrow>
            active t \<noteq> []
            \<and> round64 (ub (ost t) - gaptol t) \<le> round64 (n_obj (hd (active t)))
            \<and> t' = t\<lparr>active := [], lb := n_obj (hd (active t))\<rparr>"
    by (rule iteration_Returned_iff)
  from 1 2 show ?thesis by blast
qed

theorem gap_check_termination_witness:
  "state_ok [[0, 0], [0, 0]] [1, 1] 0 example_state
   \<and> solveBB GapTolerance example_oracle example_state = Inr (Returned example_final)
   \<and> active example_final = []
   \<and> float64 (ub (ost example_final) - gaptol example_final) \<and> float64 (lb example_final)
   \<and> ub (ost example_final) - lb example_final \<le> gaptol example_final
   \<and> binary (incumbent (ost example_final))
   \<and> length (incumbent (ost example_final)) = length [1, 1 :: real]
   \<and> objective [[0, 0], [0, 0]] [1, 1] 0 (incumbent (ost example_final)) = ub (ost example_final)"
proof -
  have st: "state_ok [[0, 0], [0, 0]] [1, 1] 0 example_state"
    by (simp add: state_ok_def incumbent_ok_def binary_def assign_ok_def upt_rec
        objective_def quad_def dot_def example_defs)
  have ret: "solveBB GapTolerance (solveRelaxation example_solver [[0, 0], [0, 0]] [1, 1] 0)
      example_state = Inr (Returned example_final)"
    by (simp add: solveBB.simps run_defs example_defs example_final_def)
  have fl: "float64 (ub (ost example_final) - gaptol example_final) \<and> float64 (lb example_final)"
    by (simp add: float64_def example_final_def round64_values)
  from gap_check_termination [OF st, where sdp = example_solver and s' = example_final,
      THEN conjunct2, rule_format, OF ret] fl
  show ?thesis using st ret by (simp add: example_oracle_def)
qed

text \<open>
  The statement of C2 fails in binary64 arithmetic. In \<open>coarse_state\<close> the root is popped
  with \<open>lb = 10\<^sup>1\<^sup>6 - 2\<close>; the difference \<open>ub - gaptol = 10\<^sup>1\<^sup>6 - 3/2\<close> is rounded to
  \<open>10\<^sup>1\<^sup>6 - 2\<close>, the test fires and the loop returns with \<open>lb < ub - gaptol\<close>, that is
  with \<open>ub - lb = 2\<close> above the tolerance \<open>3/2\<close>.
\<close>

theorem gap_check_termination_counterexample:
  "state_ok [[0, 0], [0, 0]] [0, 0] 10000000000000000 coarse_state
   \<and> float64 (ub (ost coarse_state)) \<and> float64 (gaptol coarse_state)
   \<and> float64 (n_obj (hd (active coarse_state)))
   \<and> solveBB GapTolerance
        (solveRelaxation example_solver [[0, 0], [0, 0]] [0, 0] 10000000000000000) coarse_state
       = Inr (Returned (coarse_state\<lparr>active := [], lb := 9999999999999998\<rparr>))
   \<and> n_obj (hd (active coarse_state)) < ub (ost coarse_state) - gaptol coarse_state
   \<and> gaptol (coarse_state\<lparr>active := [], lb := 9999999999999998\<rparr>)
       < ub (ost (coarse_state\<lparr>active := [], lb := 9999999999999998\<rparr>))
         - lb (coarse_state\<lparr>active := [], lb := 9999999999999998\<rparr>)"
  by (simp add: solveBB.simps run_defs float64_def state_ok_def incumbent_ok_def binary_def
      assign_ok_def upt_rec coarse_state_def)

section \<open>Failure of the oracle\<close>

lemma forE_pair:
  "forE [a, b] f s = bindE (f a s) (\<lambda>s2. f b s2)"
  by (cases "f a s") (simp_all add: bindE_def split: sum.splits)

lemma solveBB_raise:
  "active s \<noteq> [] \<Longrightarrow> iteration c orc s = Inl e \<Longrightarrow>
   solveBB c orc s = Inl e \<and> lb_trace c orc s = [n_obj (hd (active s))]"
  by (simp add: solveBB.simps lb_trace.simps)

text \<open>
  Claim C9 (oracle failure), as amended. \<^verbatim>\<open>solveBB\<close> has no handler around the call of
  the oracle: when the oracle raises for the first or for the second child of the popped
  node, the exception leaves \<^verbatim>\<open>solveBB\<close> and no further node is popped.
\<close>

theorem oracle_failure_propagates:
  assumes act: "active s = nd # rest"
    and pass: "\<not> optimality_proved c (s\<lparr>active := rest, lb := n_obj nd\<rparr>)"
    and big: "2 \<le> length (n_P nd)"
    and px: "np_index (n_idxmap nd) (n_pivot nd) = Inr pidx"
    and c0: "child_data nd pidx 0 = Inr (Q0, P0, R0, curr0, idxmap0)"
    and fail: "orc (ost s) Q0 P0 R0 curr0 idxmap0 = Inl e
       \<or> (\<exists>r os0 Q1 P1 R1 curr1 idxmap1.
             orc (ost s) Q0 P0 R0 curr0 idxmap0 = Inr (r, os0)
           \<and> child_data nd pidx 1 = Inr (Q1, P1, R1, curr1, idxmap1)
           \<and> orc os0 Q1 P1 R1 curr1 idxmap1 = Inl e)"
  shows "solveBB c orc s = Inl e \<and> lb_trace c orc s = [n_obj nd]"
proof -
  let ?s1 = "s\<lparr>active := rest, lb := n_obj nd\<rparr>"
  have it: "iteration c orc s =
      bindE (bindE (branch orc nd pidx 0 ?s1) (\<lambda>s2. branch orc nd pidx 1 s2))
        (\<lambda>s2. Inr (Continued s2))"
    using pass big px
    by (simp add: iteration_pop [OF act] Let_def forE_pair bindE_def del: forE.simps)
  from fail have "iteration c orc s = Inl e"
  proof
    assume "orc (ost s) Q0 P0 R0 curr0 idxmap0 = Inl e"
    then have "branch orc nd pidx 0 ?s1 = Inl e" using c0 by (simp add: branch_def bindE_def)
    then show ?thesis by (simp add: it bindE_def)
  next
    assume "\<exists>r os0 Q1 P1 R1 curr1 idxmap1.
             orc (ost s) Q0 P0 R0 curr0 idxmap0 = Inr (r, os0)
           \<and> child_data nd pidx 1 = Inr (Q1, P1, R1, curr1, idxmap1)
           \<and> orc os0 Q1 P1 R1 curr1 idxmap1 = Inl e"
    then obtain r os0 Q1 P1 R1 curr1 idxmap1 where
      o0: "orc (ost s) Q0 P0 R0 curr0 idxmap0 = Inr (r, os0)"
      and c1: "child_data nd pidx 1 = Inr (Q1, P1, R1, curr1, idxmap1)"
      and o1: "orc os0 Q1 P1 R1 curr1 idxmap1 = Inl e" by blast
    obtain obj0 pivot0 where r: "r = (obj0, pivot0)" by (cases r)
    let ?s2 = "?s1\<lparr>ost := os0, active := heappush (active ?s1)
               \<lparr>n_obj = obj0, n_seq = relSolved os0, n_Q = Q0, n_P = P0, n_R = R0,
                n_curr = curr0, n_idxmap = idxmap0, n_pivot = pivot0\<rparr>\<rparr>"
    have b0: "branch orc nd pidx 0 ?s1 = Inr ?s2"
      using c0 o0 by (simp add: branch_def bindE_def r)
    have "branch orc nd pidx 1 ?s2 = Inl e"
      using c1 o1 by (simp add: branch_def bindE_def)
    then show ?thesis by (simp add: it b0 bindE_def)
  qed
  with solveBB_raise [of s c orc e] act show ?thesis by simp
qed

theorem oracle_failure_propagates_witness:
  "active example_state = example_root # []
   \<and> \<not> optimality_proved GapTolerance (example_state\<lparr>active := [], lb := n_obj example_root\<rparr>)
   \<and> 2 \<le> length (n_P example_root)
   \<and> np_index (n_idxmap example_root) (n_pivot example_root) = Inr 0
   \<and> child_data example_root 0 0 = Inr ([[0]], [1], 0, [0, 0], [1])
   \<and> flaky_oracle (ost example_state) [[0]] [1] 0 [0, 0] [1]
       = Inr ((- 1 / 2, 0), \<lparr>ub = 0, relSolved = 2, incumbent = [0, 0]\<rparr>)
   \<and> child_data example_root 0 1 = Inr ([[0]], [1], 1, [1, 0], [1])
   \<and> flaky_oracle \<lparr>ub = 0, relSolved = 2, incumbent = [0, 0]\<rparr> [[0]] [1] 1 [1, 0] [1]
       = Inl SolverError
   \<and> solveBB GapTolerance flaky_oracle example_state = Inl SolverError
   \<and> lb_trace GapTolerance flaky_oracle example_state = [n_obj example_root]"
proof -
  have act: "active example_state = example_root # []" by (simp add: example_defs)
  have pass: "\<not> optimality_proved GapTolerance
      (example_state\<lparr>active := [], lb := n_obj example_root\<rparr>)"
    by (simp add: optimality_proved_def round64_values example_defs)
  have big: "2 \<le> length (n_P example_root)" by (simp add: example_defs)
  have px: "np_index (n_idxmap example_root) (n_pivot example_root) = Inr 0"
    by (simp add: run_defs example_defs)
  have c0: "child_data example_root 0 0 = Inr ([[0]], [1], 0, [0, 0], [1])"
    by (simp add: run_defs example_defs)
  have o0: "flaky_oracle (ost example_state) [[0]] [1] 0 [0, 0] [1]
       = Inr ((- 1 / 2, 0), \<lparr>ub = 0, relSolved = 2, incumbent = [0, 0]\<rparr>)"
    by (simp add: run_defs example_defs flaky_oracle_def)
  have c1: "child_data example_root 0 1 = Inr ([[0]], [1], 1, [1, 0], [1])"
    by (simp add: run_defs example_defs)
  have o1: "flaky_oracle \<lparr>ub = 0, relSolved = 2, incumbent = [0, 0]\<rparr> [[0]] [1] 1 [1, 0] [1]
       = Inl SolverError"
    by (simp add: run_defs flaky_oracle_def)
  have fail: "flaky_oracle (ost example_state) [[0]] [1] 0 [0, 0] [1] = Inl SolverError
       \<or> (\<exists>r os0 Q1 P1 R1 curr1 idxmap1.
             flaky_oracle (ost example_state) [[0]] [1] 0 [0, 0] [1] = Inr (r, os0)
           \<and> child_data example_root 0 1 = Inr (Q1, P1, R1, curr1, idxmap1)
           \<and> flaky_oracle os0 Q1 P1 R1 curr1 idxmap1 = Inl SolverError)"
    using o0 c1 o1 by blast
  from oracle_failure_propagates [OF act pass big px c0 fail]
  show ?thesis using act pass big px c0 o0 c1 o1 by simp
qed

text \<open>
  The statement of C9 fails on the worked example with \<open>flaky_oracle\<close>: the solve of the
  child \<open>x\<^sub>1 = 1\<close> fails, the run ends with the exception after the first pop, and the
  child \<open>x\<^sub>1 = 0\<close>, already queued, is never processed.
\<close>

theorem oracle_failure_counterexample:
  "solveBB GapTolerance flaky_oracle example_state = Inl SolverError
   \<and> lb_trace GapTolerance flaky_oracle example_state = [-1]"
  by (simp add: solveBB.simps lb_trace.simps run_defs example_defs flaky_oracle_def)

section \<open>Expansion leaves the parent untouched\<close>

lemma fetch_vec_iff: "fetch_vec st a = Inr v \<longleftrightarrow> a < length st \<and> st ! a = FloatArray v"
  by (auto simp: fetch_vec_def fetch_def bindE_def split: array.splits)

lemma fetch_mat_iff: "fetch_mat st a = Inr m \<longleftrightarrow> a < length st \<and> st ! a = Matrix m"
  by (auto simp: fetch_mat_def fetch_def bindE_def split: array.splits)

lemma fetch_idx_iff: "fetch_idx st a = Inr i \<longleftrightarrow> a < length st \<and> st ! a = IndexArray i"
  by (auto simp: fetch_idx_def fetch_def bindE_def split: array.splits)

lemma ref_delete_idx_iff:
  "ref_delete_idx st a i = Inr (b, st') \<longleftrightarrow>
     (\<exists>xs. a < length st \<and> st ! a = IndexArray xs \<and> i < length xs
        \<and> b = length st \<and> st' = st @ [IndexArray (delete_at i xs)])"
  by (auto simp: ref_delete_idx_def bindE_Inr fetch_idx_iff np_delete_def allocate_def)

lemma ref_delete_vec_iff:
  "ref_delete_vec st a i = Inr (b, st') \<longleftrightarrow>
     (\<exists>xs. a < length st \<and> st ! a = FloatArray xs \<and> i < length xs
        \<and> b = length st \<and> st' = st @ [FloatArray (delete_at i xs)])"
  by (auto simp: ref_delete_vec_def bindE_Inr fetch_vec_iff np_delete_def allocate_def)

lemma ref_delete_axis0_iff:
  "ref_delete_axis0 st a i = Inr (b, st') \<longleftrightarrow>
     (\<exists>M. a < length st \<and> st ! a = Matrix M \<and> i < length M
        \<and> b = length st \<and> st' = st @ [Matrix (delete_at i M)])"
  by (auto simp: ref_delete_axis0_def bindE_Inr fetch_mat_iff np_delete_def allocate_def)

lemma ref_delete_axis1_iff:
  "ref_delete_axis1 st a j = Inr (b, st') \<longleftrightarrow>
     (\<exists>M N. a < length st \<and> st ! a = Matrix M \<and> np_delete_axis1 M j = Inr N
        \<and> b = length st \<and> st' = st @ [Matrix N])"
  by (auto simp: ref_delete_axis1_def bindE_Inr fetch_mat_iff allocate_def)

lemma ref_copy_iff:
  "ref_copy st a = Inr (b, st') \<longleftrightarrow>
     (\<exists>xs. a < length st \<and> st ! a = FloatArray xs \<and> b = length st
        \<and> st' = st @ [FloatArray xs])"
  by (auto simp: ref_copy_def bindE_Inr fetch_vec_iff allocate_def)

lemma ref_setitem_iff:
  "ref_setitem st a i v = Inr st' \<longleftrightarrow>
     (\<exists>xs. a < length st \<and> st ! a = FloatArray xs \<and> i < length xs
        \<and> st' = st[a := FloatArray (xs[i := v])])"
  by (auto simp: ref_setitem_def bindE_Inr fetch_vec_iff np_setitem_def)

lemma ref_column_iff:
  "ref_column st a j = Inr col \<longleftrightarrow>
     (\<exists>M. a < length st \<and> st ! a = Matrix M \<and> np_column M j = Inr col)"
  by (auto simp: ref_column_def bindE_Inr fetch_mat_iff)

lemma ref_add_scaled_iff:
  "ref_add_scaled st a c (q, j) = Inr (b, st') \<longleftrightarrow>
     (\<exists>xs col ys. a < length st \<and> st ! a = FloatArray xs \<and> ref_column st q j = Inr col
        \<and> np_add xs (scale c col) = Inr ys \<and> b = length st \<and> st' = st @ [FloatArray ys])"
  by (auto simp: ref_add_scaled_def bindE_Inr fetch_vec_iff allocate_def)

lemma load_iff:
  "load st (aQ, aP, R, ac, ai) = Inr (Q, P, R', cur, im) \<longleftrightarrow>
     aQ < length st \<and> st ! aQ = Matrix Q \<and> aP < length st \<and> st ! aP = FloatArray P
     \<and> R' = R \<and> ac < length st \<and> st ! ac = FloatArray cur
     \<and> ai < length st \<and> st ! ai = IndexArray im"
  by (auto simp: load_def bindE_Inr fetch_mat_iff fetch_vec_iff fetch_idx_iff)

lemma build_child_char:
  assumes ld: "load st (refs_of nd) = Inr (Q, P, R, cur, im)"
    and bc: "build_child st nd pidx val = Inr (ch, st')"
  shows "\<exists>Q0 P0 R0 idxmap0 QT PT.
      child_data (node_of (Q, P, R, cur, im) (val_pivot nd)) pidx val
        = Inr (Q0, P0, R0, cur[pidx := val], idxmap0)
    \<and> st' = st @ [IndexArray idxmap0, FloatArray (cur[pidx := val]), Matrix QT, Matrix Q0,
                  FloatArray PT, FloatArray P0]
    \<and> ch = (length st + 3, length st + 5, R0, length st + 1, length st)"
proof -
  let ?p = "val_pivot nd"
  from ld have Q0: "ref_Q nd < length st" "st ! ref_Q nd = Matrix Q"
    and P0': "ref_P nd < length st" "st ! ref_P nd = FloatArray P"
    and R: "R = val_R nd"
    and cur0: "ref_curr nd < length st" "st ! ref_curr nd = FloatArray cur"
    and im0: "ref_idxmap nd < length st" "st ! ref_idxmap nd = IndexArray im"
    by (auto simp: refs_of_def load_iff)
  from bc obtain idxmap0 st1 curr0 st2 st3 QT st4 Q0 st5 QZ PT st6 P0 st7 Q' qpp P' pp where
    1: "ref_delete_idx st (ref_idxmap nd) ?p = Inr (idxmap0, st1)"
    and 2: "ref_copy st1 (ref_curr nd) = Inr (curr0, st2)"
    and 3: "ref_setitem st2 curr0 pidx val = Inr st3"
    and 4: "ref_delete_axis0 st3 (ref_Q nd) ?p = Inr (QT, st4)"
    and 5: "ref_delete_axis1 st4 QT ?p = Inr (Q0, st5)"
    and 6: "ref_column st5 QT ?p = Inr QZ"
    and 7: "ref_delete_vec st5 (ref_P nd) ?p = Inr (PT, st6)"
    and 8: "ref_add_scaled st6 PT (2 * val) (QT, ?p) = Inr (P0, st7)"
    and 9: "fetch_mat st7 (ref_Q nd) = Inr Q'" "np_index2 Q' ?p ?p = Inr qpp"
    and 10: "fetch_vec st7 (ref_P nd) = Inr P'" "np_index P' ?p = Inr pp"
    and ch: "ch = (Q0, P0, val * qpp + val * pp + val_R nd, curr0, idxmap0)" and st': "st' = st7"
    unfolding build_child_def by (auto simp: bindE_Inr)
  from 1 im0 have pi: "?p < length im"
    and a1: "idxmap0 = length st" "st1 = st @ [IndexArray (delete_at ?p im)]"
    by (auto simp: ref_delete_idx_iff)
  from 2 cur0 a1 have a2: "curr0 = Suc (length st)"
    "st2 = st @ [IndexArray (delete_at ?p im), FloatArray cur]"
    by (auto simp: ref_copy_iff nth_append)
  from 3 a2 have px: "pidx < length cur"
    and a3: "st3 = st @ [IndexArray (delete_at ?p im), FloatArray (cur[pidx := val])]"
    by (auto simp: ref_setitem_iff nth_append list_update_append)
  from 4 Q0 a3 have pq: "?p < length Q" and a4: "QT = Suc (Suc (length st))"
    "st4 = st @ [IndexArray (delete_at ?p im), FloatArray (cur[pidx := val]),
                 Matrix (delete_at ?p Q)]"
    by (auto simp: ref_delete_axis0_iff nth_append)
  from 5 a4 obtain Q0m where q0: "np_delete_axis1 (delete_at ?p Q) ?p = Inr Q0m"
    and a5: "Q0 = Suc (Suc (Suc (length st)))"
    "st5 = st @ [IndexArray (delete_at ?p im), FloatArray (cur[pidx := val]),
                 Matrix (delete_at ?p Q), Matrix Q0m]"
    by (auto simp: ref_delete_axis1_iff nth_append)
  from 6 a4 a5 have qz: "np_column (delete_at ?p Q) ?p = Inr QZ"
    by (auto simp: ref_column_iff nth_append)
  from 7 P0' a5 have pp: "?p < length P" and a7: "PT = Suc (Suc (Suc (Suc (length st))))"
    "st6 = st @ [IndexArray (delete_at ?p im), FloatArray (cur[pidx := val]),
                 Matrix (delete_at ?p Q), Matrix Q0m, FloatArray (delete_at ?p P)]"
    by (auto simp: ref_delete_vec_iff nth_append)
  from 8 a7 a4 qz obtain P0m where
    p0: "np_add (delete_at ?p P) (scale (2 * val) QZ) = Inr P0m"
    and a8: "P0 = Suc (Suc (Suc (Suc (Suc (length st)))))"
    "st7 = st @ [IndexArray (delete_at ?p im), FloatArray (cur[pidx := val]),
                 Matrix (delete_at ?p Q), Matrix Q0m, FloatArray (delete_at ?p P),
                 FloatArray P0m]"
    by (auto simp: ref_add_scaled_iff ref_column_iff nth_append)
  have Qeq: "Q' = Q" using 9(1) Q0 a8 by (auto simp: fetch_mat_iff nth_append)
  have Peq: "P' = P" using 10(1) P0' a8 by (auto simp: fetch_vec_iff nth_append)
  have red: "reduce Q P R ?p val = Inr (Q0m, P0m, val * qpp + val * pp + val_R nd)"
    using pq q0 qz pp p0 9(2) 10(2) Qeq Peq R
    by (simp add: reduce_def bindE_def np_delete_def)
  have cd: "child_data (node_of (Q, P, R, cur, im) ?p) pidx val
      = Inr (Q0m, P0m, val * qpp + val * pp + val_R nd, cur[pidx := val], delete_at ?p im)"
    using pi px red by (simp add: child_data_def node_of_def bindE_def np_delete_def np_setitem_def)
  have st7: "st' = st @ [IndexArray (delete_at ?p im), FloatArray (cur[pidx := val]),
      Matrix (delete_at ?p Q), Matrix Q0m, FloatArray (delete_at ?p P), FloatArray P0m]"
    by (simp add: st' a8)
  have ch': "ch = (length st + 3, length st + 5, val * qpp + val * pp + val_R nd,
      length st + 1, length st)"
    by (simp add: ch a8 a5 a2 a1)
  from cd st7 ch' show ?thesis by blast
qed


lemma child_data_shared:
  assumes "child_data nd pidx v = Inr (Q0, P0, R0, c0, i0)"
    and "child_data nd pidx w = Inr (Q1, P1, R1, c1, i1)"
  shows "Q0 = Q1 \<and> i0 = i1"
  using assms unfolding child_data_def reduce_def by (auto simp: bindE_Inr)

lemmas store_defs = expand_refs_def build_child_def ref_delete_idx_def ref_delete_vec_def
  ref_delete_axis0_def ref_delete_axis1_def ref_copy_def ref_setitem_def ref_column_def
  ref_add_scaled_def fetch_def fetch_vec_def fetch_mat_def fetch_idx_def allocate_def
  load_def refs_of_def

text \<open>
  Claim C10 (expansion purity). Building the two children of a node whose references are
  valid changes no array that existed before: every address of the old store holds what
  it held, so the parent's \<open>Q\<close>, \<open>P\<close>, assignment and index map are the same before the
  first child, between the children and after the second. The children's arrays are at
  new, pairwise different addresses. Their contents are those of the value-level
  \<open>child_data\<close> of the parent for 0 and for 1: the assignment is the parent's with the
  entry \<open>pidx\<close> set to the value, \<open>Q0\<close> and the index map are the same for both children,
  and only \<open>P0\<close>, \<open>R0\<close> and that one entry differ.
\<close>

theorem expansion_purity:
  assumes ld: "load st (refs_of nd) = Inr (Q, P, R, cur, im)"
    and ex: "expand_refs st nd pidx = Inr (child0, child1, st')"
  shows "(\<forall>a<length st. a < length st' \<and> st' ! a = st ! a)
       \<and> load st' (refs_of nd) = Inr (Q, P, R, cur, im)
       \<and> pidx < length cur
       \<and> (\<exists>Q0 P0 R0 P1 R1 idxmap0.
            child_data (node_of (Q, P, R, cur, im) (val_pivot nd)) pidx 0
              = Inr (Q0, P0, R0, cur[pidx := 0], idxmap0)
          \<and> child_data (node_of (Q, P, R, cur, im) (val_pivot nd)) pidx 1
              = Inr (Q0, P1, R1, cur[pidx := 1], idxmap0)
          \<and> load st' child0 = Inr (Q0, P0, R0, cur[pidx := 0], idxmap0)
          \<and> load st' child1 = Inr (Q0, P1, R1, cur[pidx := 1], idxmap0))
       \<and> (\<exists>R0 R1. child0 = (length st + 3, length st + 5, R0, length st + 1, length st)
            \<and> child1 = (length st + 9, length st + 11, R1, length st + 7, length st + 6))"
proof -
  let ?nd = "node_of (Q, P, R, cur, im) (val_pivot nd)"
  from ex obtain st1 where b0: "build_child st nd pidx 0 = Inr (child0, st1)"
    and b1: "build_child st1 nd pidx 1 = Inr (child1, st')"
    unfolding expand_refs_def by (auto simp: bindE_Inr)
  from build_child_char [OF ld b0] obtain Q0 P0 R0 idxmap0 QT PT where
    cd0: "child_data ?nd pidx 0 = Inr (Q0, P0, R0, cur[pidx := 0], idxmap0)"
    and st1: "st1 = st @ [IndexArray idxmap0, FloatArray (cur[pidx := 0]), Matrix QT, Matrix Q0,
                  FloatArray PT, FloatArray P0]"
    and ch0: "child0 = (length st + 3, length st + 5, R0, length st + 1, length st)"
    by blast
  have ld1: "load st1 (refs_of nd) = Inr (Q, P, R, cur, im)"
    using ld by (auto simp: refs_of_def load_iff st1 nth_append)
  from build_child_char [OF ld1 b1] obtain Q1 P1 R1 idxmap1 QT1 PT1 where
    cd1: "child_data ?nd pidx 1 = Inr (Q1, P1, R1, cur[pidx := 1], idxmap1)"
    and st': "st' = st1 @ [IndexArray idxmap1, FloatArray (cur[pidx := 1]), Matrix QT1, Matrix Q1,
                  FloatArray PT1, FloatArray P1]"
    and ch1: "child1 = (length st1 + 3, length st1 + 5, R1, length st1 + 1, length st1)"
    by blast
  from child_data_shared [OF cd0 cd1] have same: "Q1 = Q0" "idxmap1 = idxmap0" by simp_all
  have px: "pidx < length cur"
    using cd0 unfolding child_data_def node_of_def
    by (auto simp: bindE_Inr np_setitem_def split: if_splits)
  have frame: "\<forall>a<length st. a < length st' \<and> st' ! a = st ! a"
    by (simp add: st' st1 nth_append)
  have ld': "load st' (refs_of nd) = Inr (Q, P, R, cur, im)"
    using ld by (auto simp: refs_of_def load_iff st' st1 nth_append)
  have l0: "load st' child0 = Inr (Q0, P0, R0, cur[pidx := 0], idxmap0)"
    by (simp add: ch0 load_iff st' st1 nth_append)
  have l1: "load st' child1 = Inr (Q0, P1, R1, cur[pidx := 1], idxmap0)"
    by (simp add: ch1 load_iff st' st1 nth_append same)
  have ch1': "child1 = (length st + 9, length st + 11, R1, length st + 7, length st + 6)"
    by (simp add: ch1 st1)
  from cd0 cd1 same l0 l1 have "\<exists>Q0 P0 R0 P1 R1 idxmap0.
            child_data ?nd pidx 0 = Inr (Q0, P0, R0, cur[pidx := 0], idxmap0)
          \<and> child_data ?nd pidx 1 = Inr (Q0, P1, R1, cur[pidx := 1], idxmap0)
          \<and> load st' child0 = Inr (Q0, P0, R0, cur[pidx := 0], idxmap0)
          \<and> load st' child1 = Inr (Q0, P1, R1, cur[pidx := 1], idxmap0)"
    by blast
  with frame ld' px ch0 ch1' show ?thesis by blast
qed

theorem expansion_purity_witness:
  "load example_store (refs_of example_refs) = Inr ([[0, 0], [0, 0]], [1, 1], 0, [0, 0], [0, 1])
   \<and> expand_refs example_store example_refs 0 =
       Inr ((7, 9, 0, 5, 4), (13, 15, 1, 11, 10),
         example_store @
         [IndexArray [1], FloatArray [0, 0], Matrix [[0, 0]], Matrix [[0]], FloatArray [1],
          FloatArray [1],
          IndexArray [1], FloatArray [1, 0], Matrix [[0, 0]], Matrix [[0]], FloatArray [1],
          FloatArray [1]])
   \<and> load (example_store @
         [IndexArray [1], FloatArray [0, 0], Matrix [[0, 0]], Matrix [[0]], FloatArray [1],
          FloatArray [1],
          IndexArray [1], FloatArray [1, 0], Matrix [[0, 0]], Matrix [[0]], FloatArray [1],
          FloatArray [1]]) (refs_of example_refs)
       = Inr ([[0, 0], [0, 0]], [1, 1], 0, [0, 0], [0, 1])"
proof -
  have ld: "load example_store (refs_of example_refs)
      = Inr ([[0, 0], [0, 0]], [1, 1], 0, [0, 0], [0, 1])"
    by (simp add: store_defs bindE_def example_store_def example_refs_def)
  have ex: "expand_refs example_store example_refs 0 =
       Inr ((7, 9, 0, 5, 4), (13, 15, 1, 11, 10),
         example_store @
         [IndexArray [1], FloatArray [0, 0], Matrix [[0, 0]], Matrix [[0]], FloatArray [1],
          FloatArray [1],
          IndexArray [1], FloatArray [1, 0], Matrix [[0, 0]], Matrix [[0]], FloatArray [1],
          FloatArray [1]])"
    by (simp add: store_defs run_defs example_store_def example_refs_def)
  from expansion_purity [OF ld ex] ld ex show ?thesis by blast
qed

end
